theory Spec2Isabelle
  imports Main "HOL-Library.Char_ord" "HOL-Library.List_Lexorder"
begin

section \<open>ImageAnim: rendering image frames into LED buffers and playing them back\<close>

text \<open>
  A shallow embedding of \<^verbatim>\<open>BiblioPixelAnimations/matrix/ImageAnim.py\<close> (Python 2).
  Python integers are \<open>int\<close>, tuples are products, lists are lists, and every
  exception the code can raise is a value of \<open>error\<close> on the left of a sum.
\<close>

subsection \<open>Python values and exceptions\<close>

datatype error = IndexError | ValueError | AttributeError | IOError

type_synonym color = "int \<times> int \<times> int"
type_synonym rgba = "int \<times> int \<times> int \<times> int"

text \<open>Sequencing of statements that may raise: the first exception ends the run.\<close>

definition andThen :: "error + 'a \<Rightarrow> ('a \<Rightarrow> error + 'b) \<Rightarrow> error + 'b" where
  "andThen m f = (case m of Inl e \<Rightarrow> Inl e | Inr v \<Rightarrow> f v)"

text \<open>
  Where a Python list of \<open>len\<close> elements is read or written at index \<open>i\<close>: at \<open>i\<close>
  itself from 0 up, at \<open>len + i\<close> for the negative indices down to \<open>- len\<close>, and nowhere
  (an \<^verbatim>\<open>IndexError\<close>) otherwise.
\<close>

definition py_index :: "nat \<Rightarrow> int \<Rightarrow> nat option" where
  "py_index len i =
     (if 0 \<le> i \<and> i < int len then Some (nat i)
      else if - int len \<le> i \<and> i < 0 then Some (nat (int len + i))
      else None)"

text \<open>\<^verbatim>\<open>xs[i]\<close> and \<^verbatim>\<open>xs[i] = v\<close>.\<close>

definition py_get :: "'a list \<Rightarrow> int \<Rightarrow> error + 'a" where
  "py_get xs i = (case py_index (length xs) i of None \<Rightarrow> Inl IndexError | Some k \<Rightarrow> Inr (xs ! k))"

definition py_set :: "'a list \<Rightarrow> int \<Rightarrow> 'a \<Rightarrow> error + 'a list" where
  "py_set xs i v =
     (case py_index (length xs) i of None \<Rightarrow> Inl IndexError | Some k \<Rightarrow> Inr (xs[k := v]))"

text \<open>\<^verbatim>\<open>range(a, b)\<close> on integers.\<close>

definition py_range :: "int \<Rightarrow> int \<Rightarrow> int list" where
  "py_range a b = [a..b - 1]"

text \<open>\<^verbatim>\<open>for v in vs: body\<close> over a state, stopping at the first exception.\<close>

fun for_each :: "('a \<Rightarrow> 's \<Rightarrow> error + 's) \<Rightarrow> 'a list \<Rightarrow> 's \<Rightarrow> error + 's" where
  "for_each body [] s = Inr s"
| "for_each body (v # vs) s = andThen (body v s) (for_each body vs)"

text \<open>\<^verbatim>\<open>s.endswith(t)\<close>.\<close>

definition endswith :: "string \<Rightarrow> string \<Rightarrow> bool" where
  "endswith s t = (length t \<le> length s \<and> drop (length s - length t) s = t)"

subsection \<open>The collaborators: LED matrix, images, files\<close>

text \<open>
  The fields of the LED matrix object that the code reads: \<^verbatim>\<open>width\<close>, \<^verbatim>\<open>height\<close>,
  \<^verbatim>\<open>numLEDs\<close>, \<^verbatim>\<open>bufByteCount\<close>, \<^verbatim>\<open>matrix_map\<close> (rows of physical indices, read as
  \<^verbatim>\<open>matrix_map[y][x]\<close>), \<^verbatim>\<open>driver[0].gamma\<close> and \<^verbatim>\<open>masterBrightness\<close>; and its display
  buffer, which \<^verbatim>\<open>all_off\<close> and \<^verbatim>\<open>setBuffer\<close> write.
\<close>

record led =
  width :: int
  height :: int
  numLEDs :: int
  bufByteCount :: int
  matrix_map :: "int list list"
  driver_gamma :: "int list"
  masterBrightness :: int
  led_buffer :: "int list"

text \<open>
  \<^verbatim>\<open>all_off\<close> and \<^verbatim>\<open>setBuffer\<close> belong to the LED library, outside this repository:
  the first blanks the display buffer, the second installs the given buffer.
\<close>

definition all_off :: "led \<Rightarrow> led" where
  "all_off l = l\<lparr>led_buffer := replicate (nat (bufByteCount l)) 0\<rparr>"

definition setBuffer :: "led \<Rightarrow> int list \<Rightarrow> led" where
  "setBuffer l buf = l\<lparr>led_buffer := buf\<rparr>"

text \<open>
  A decoded image as the compositor sees it: \<^verbatim>\<open>img.size\<close>, the optional
  \<^verbatim>\<open>img.info['duration']\<close>, and the RGBA samples of the frame pasted into a fresh
  RGBA image, row by row.
\<close>

record image =
  img_size :: "int \<times> int"
  info_duration :: "int option"
  pixels :: "rgba list"

text \<open>
  \<^verbatim>\<open>frame.getpixel((x, y))\<close>. The compositor only reads coordinates inside the frame;
  outside it the imaging library raises.
\<close>

definition getpixel :: "image \<Rightarrow> int \<times> int \<Rightarrow> error + rgba" where
  "getpixel frame xy =
     (let (x, y) = xy; (fw, fh) = img_size frame
      in if 0 \<le> x \<and> x < fw \<and> 0 \<le> y \<and> y < fh
         then py_get (pixels frame) (y * fw + x) else Inl IndexError)"

text \<open>
  The file system and decoder: \<^verbatim>\<open>Image.open\<close> gives the image positioned at its first
  frame together with the further frames that \<^verbatim>\<open>ImageSequence.Iterator\<close> reaches by
  seeking (the iterator always yields the opened image itself first), or fails;
  \<^verbatim>\<open>glob.glob\<close> lists the paths matching a pattern.
\<close>

record filesystem =
  Image_open :: "string \<Rightarrow> (image \<times> image list) option"
  glob :: "string \<Rightarrow> string list"

text \<open>
  Modelled from the spec: \<^verbatim>\<open>colors.color_scale\<close> is a function of the LED library and
  is missing from the sources, so the embedding takes it as the parameter
  \<open>color_scale\<close> everywhere. Concrete evaluations use the rounding the specification
  names, the floor of \<open>channel * brightness / 255\<close>, for which 255 is the identity.
\<close>

definition color_scale_floor :: "color \<Rightarrow> int \<Rightarrow> color" where
  "color_scale_floor c level =
     (case c of (r, g, b) \<Rightarrow> (r * level div 255, g * level div 255, b * level div 255))"

subsection \<open>\<^verbatim>\<open>_getBufferFromImage\<close>\<close>

text \<open>The background fill of one LED: lines 57 to 59.\<close>

definition fill_led :: "int list \<Rightarrow> color \<Rightarrow> int \<Rightarrow> int list \<Rightarrow> error + int list" where
  "fill_led gamma bgcolor i buffer =
     (case bgcolor of (bg0, bg1, bg2) \<Rightarrow>
        andThen (py_get gamma bg0) (\<lambda>v0.
        andThen (py_set buffer (i * 3 + 0) v0) (\<lambda>buffer.
        andThen (py_get gamma bg1) (\<lambda>v1.
        andThen (py_set buffer (i * 3 + 1) v1) (\<lambda>buffer.
        andThen (py_get gamma bg2) (\<lambda>v2.
        py_set buffer (i * 3 + 2) v2))))))"

text \<open>
  The colour of a covered pixel before gamma: lines 70 to 77. A transparent sample
  takes the background colour, any other is multiplied by its alpha and shifted; then the
  brightness scaling applies to whichever colour was chosen.
\<close>

definition pixel_color :: "(color \<Rightarrow> int \<Rightarrow> color) \<Rightarrow> color \<Rightarrow> int \<Rightarrow> rgba \<Rightarrow> color" where
  "pixel_color color_scale bgcolor bright s =
     (case s of (r, g, b, a) \<Rightarrow>
        let rgb = (if a = 0 then bgcolor
                   else (drop_bit 8 (r * a), drop_bit 8 (g * a), drop_bit 8 (b * a)))
        in if bright \<noteq> 255 then color_scale rgb bright else rgb)"

text \<open>The body of the inner loop: lines 66 to 81.\<close>

definition set_pixel ::
  "led \<Rightarrow> (color \<Rightarrow> int \<Rightarrow> color) \<Rightarrow> color \<Rightarrow> int \<Rightarrow> image \<Rightarrow> int \<Rightarrow> int \<Rightarrow> int \<Rightarrow> int
     \<Rightarrow> int list \<Rightarrow> error + int list" where
  "set_pixel l color_scale bgcolor bright frame ox oy x y buffer =
     (if x < 0 \<or> y < 0 then Inr buffer
      else
        andThen (py_get (matrix_map l) y) (\<lambda>row.
        andThen (py_get row x) (\<lambda>pixel.
        andThen (getpixel frame (x - ox, y - oy)) (\<lambda>s.
        case pixel_color color_scale bgcolor bright s of (r, g, b) \<Rightarrow>
          andThen (py_get (driver_gamma l) r) (\<lambda>v0.
          andThen (py_set buffer (pixel * 3 + 0) v0) (\<lambda>buffer.
          andThen (py_get (driver_gamma l) g) (\<lambda>v1.
          andThen (py_set buffer (pixel * 3 + 1) v1) (\<lambda>buffer.
          andThen (py_get (driver_gamma l) b) (\<lambda>v2.
          py_set buffer (pixel * 3 + 2) v2)))))))))"

text \<open>
  The overlap of the frame and the layout: lines 42 to 48. The columns visited are
  \<^verbatim>\<open>range(ox, w + ox)\<close>, the rows \<^verbatim>\<open>range(oy, h + oy)\<close>.
\<close>

definition overlap_w :: "led \<Rightarrow> image \<Rightarrow> int \<times> int \<Rightarrow> int" where
  "overlap_w l img offset =
     (let w = width l - fst offset in if fst (img_size img) < w then fst (img_size img) else w)"

definition overlap_h :: "led \<Rightarrow> image \<Rightarrow> int \<times> int \<Rightarrow> int" where
  "overlap_h l img offset =
     (let h = height l - snd offset in if snd (img_size img) < h then snd (img_size img) else h)"

text \<open>
  The whole function. \<open>bgcolor\<close> and \<open>bright\<close> are the object's \<^verbatim>\<open>_bgcolor\<close> and
  \<^verbatim>\<open>_bright\<close>. The outer loop runs over \<open>x\<close>, the inner one over \<open>y\<close>.
\<close>

definition getBufferFromImage ::
  "led \<Rightarrow> (color \<Rightarrow> int \<Rightarrow> color) \<Rightarrow> color \<Rightarrow> int \<Rightarrow> image \<Rightarrow> int \<times> int
     \<Rightarrow> error + (int option \<times> int list)" where
  "getBufferFromImage l color_scale bgcolor bright img offset =
     (let duration = info_duration img;
          w = overlap_w l img offset;
          h = overlap_h l img offset;
          ox = fst offset;
          oy = snd offset;
          buffer = replicate (nat (bufByteCount l)) 0;
          gamma = driver_gamma l
      in
        andThen (if bgcolor \<noteq> (0, 0, 0)
                 then for_each (fill_led gamma bgcolor) (py_range 0 (numLEDs l)) buffer
                 else Inr buffer) (\<lambda>buffer.
        andThen (for_each
                   (\<lambda>x. for_each (set_pixel l color_scale bgcolor bright img ox oy x)
                          (py_range oy (h + oy)))
                   (py_range ox (w + ox)) buffer) (\<lambda>buffer.
        Inr (duration, buffer))))"

definition getBufferFromPath ::
  "filesystem \<Rightarrow> led \<Rightarrow> (color \<Rightarrow> int \<Rightarrow> color) \<Rightarrow> color \<Rightarrow> int \<Rightarrow> string \<Rightarrow> int \<times> int
     \<Rightarrow> error + (int option \<times> int list)" where
  "getBufferFromPath fs l color_scale bgcolor bright imagePath offset =
     (case Image_open fs imagePath of
        None \<Rightarrow> Inl IOError
      | Some (img, rest) \<Rightarrow> getBufferFromImage l color_scale bgcolor bright img offset)"

subsection \<open>The animation object\<close>

text \<open>
  The offset argument is any Python sequence of integers: a tuple or a list. Only a tuple
  can equal the tuple \<^verbatim>\<open>(0, 0)\<close>; a list never does, whatever it holds.
\<close>

datatype py_seq = PyTuple "int list" | PyList "int list"

definition seq_items :: "py_seq \<Rightarrow> int list" where
  "seq_items s = (case s of PyTuple xs \<Rightarrow> xs | PyList xs \<Rightarrow> xs)"

text \<open>
  The fields of an \<^verbatim>\<open>ImageAnim\<close>: its own (\<^verbatim>\<open>_bright\<close>, \<^verbatim>\<open>_bgcolor\<close>, \<^verbatim>\<open>_offset\<close>,
  \<^verbatim>\<open>_images\<close>, \<^verbatim>\<open>_count\<close>, \<^verbatim>\<open>_curImage\<close>) and those of the base animation class that
  it writes (\<^verbatim>\<open>animComplete\<close>, \<^verbatim>\<open>_internalDelay\<close>, \<^verbatim>\<open>_step\<close>, \<^verbatim>\<open>_led\<close>).
\<close>

record ImageAnim =
  self_led :: led
  self_bright :: int
  self_bgcolor :: color
  self_offset :: py_seq
  self_images :: "(int option \<times> int list) list"
  self_count :: int
  self_curImage :: int
  animComplete :: bool
  self_internalDelay :: "int option"
  self_step :: int

text \<open>Lines 100 to 102: the brightness the object keeps.\<close>

definition init_bright :: "led \<Rightarrow> int \<Rightarrow> int" where
  "init_bright l brightness =
     (if brightness = 255 \<and> masterBrightness l \<noteq> 255 then masterBrightness l else brightness)"

text \<open>
  Lines 112 to 119: the offset kept for an animated file, when the argument is a tuple of
  two integers.
\<close>

definition gif_offset :: "led \<Rightarrow> image \<Rightarrow> int \<times> int \<Rightarrow> int \<times> int" where
  "gif_offset l img offset =
     (if offset = (0, 0)
      then (let w = (if fst (img_size img) < width l
                     then (width l - fst (img_size img)) div 2 else 0);
                h = (if snd (img_size img) < height l
                     then (height l - snd (img_size img)) div 2 else 0)
            in (w, h))
      else offset)"

text \<open>Lines 121 to 124: one turn appends the rendered frame and counts it.\<close>

definition append_frame ::
  "led \<Rightarrow> (color \<Rightarrow> int \<Rightarrow> color) \<Rightarrow> color \<Rightarrow> int \<Rightarrow> int \<times> int \<Rightarrow> image
     \<Rightarrow> (int option \<times> int list) list \<times> int \<Rightarrow> error + ((int option \<times> int list) list \<times> int)" where
  "append_frame l color_scale bgcolor bright offset frame acc =
     (case acc of (images, count) \<Rightarrow>
        andThen (getBufferFromImage l color_scale bgcolor bright frame offset) (\<lambda>rendered.
        Inr (images @ [rendered], count + 1)))"

text \<open>
  Lines 133 to 140: one turn over a path of the folder. \<open>img\<close> is the path, a string:
  when the offset is \<open>(0, 0)\<close> the read of \<^verbatim>\<open>img.size\<close> raises, so the assignments
  below it are never reached.
\<close>

definition append_path ::
  "filesystem \<Rightarrow> led \<Rightarrow> (color \<Rightarrow> int \<Rightarrow> color) \<Rightarrow> color \<Rightarrow> int \<Rightarrow> int \<times> int \<Rightarrow> string
     \<Rightarrow> (int option \<times> int list) list \<Rightarrow> error + (int option \<times> int list) list" where
  "append_path fs l color_scale bgcolor bright offset img images =
     (if offset = (0, 0) then Inl AttributeError
      else
        andThen (getBufferFromPath fs l color_scale bgcolor bright img offset) (\<lambda>rendered.
        Inr (images @ [rendered])))"

text \<open>
  The constructor. The base class starts with \<^verbatim>\<open>animComplete = False\<close>, no internal
  delay and step 0. \<open>init\<close> is the constructor called with an offset that is a tuple of
  two integers, written as a pair; the object keeps it as that tuple. \<open>init_seq\<close> below is
  the constructor at any offset sequence.
\<close>

definition new_anim ::
  "led \<Rightarrow> int \<Rightarrow> color \<Rightarrow> py_seq \<Rightarrow> (int option \<times> int list) list \<Rightarrow> int \<Rightarrow> ImageAnim" where
  "new_anim l bright bgcolor offset images count =
     \<lparr>self_led = l, self_bright = bright, self_bgcolor = bgcolor, self_offset = offset,
      self_images = images, self_count = count, self_curImage = 0, animComplete = False,
      self_internalDelay = None, self_step = 0\<rparr>"

definition init ::
  "filesystem \<Rightarrow> (color \<Rightarrow> int \<Rightarrow> color) \<Rightarrow> led \<Rightarrow> string \<Rightarrow> int \<times> int \<Rightarrow> color \<Rightarrow> int
     \<Rightarrow> error + ImageAnim" where
  "init fs color_scale l imagePath offset bgcolor brightness =
     (let bright = init_bright l brightness;
          bgcolor = color_scale bgcolor bright
      in if endswith imagePath ''.gif''
         then (case Image_open fs imagePath of
                 None \<Rightarrow> Inl IOError
               | Some (img, rest) \<Rightarrow>
                   let offset = gif_offset l img offset
                   in andThen (for_each (append_frame l color_scale bgcolor bright offset)
                                 (img # rest) ([], 0)) (\<lambda>(images, count).
                      Inr (new_anim l bright bgcolor (PyTuple [fst offset, snd offset])
                             images count)))
         else (let imageList = sort (glob fs (imagePath @ ''/*.bmp''));
                   count = int (length imageList)
               in if count = 0 then Inl ValueError
                  else andThen (for_each (append_path fs l color_scale bgcolor bright offset)
                                  imageList []) (\<lambda>images.
                       Inr (new_anim l bright bgcolor (PyTuple [fst offset, snd offset])
                              images count))))"

text \<open>
  The same code at any offset sequence. \<^verbatim>\<open>_getBufferFromImage\<close> reads \<^verbatim>\<open>offset[0]\<close>
  (line 42) and \<^verbatim>\<open>offset[1]\<close> (line 46) and nothing else of the offset; either read
  raises \<^verbatim>\<open>IndexError\<close> on a sequence that is too short.
\<close>

definition getBufferFromImage_seq ::
  "led \<Rightarrow> (color \<Rightarrow> int \<Rightarrow> color) \<Rightarrow> color \<Rightarrow> int \<Rightarrow> image \<Rightarrow> py_seq
     \<Rightarrow> error + (int option \<times> int list)" where
  "getBufferFromImage_seq l color_scale bgcolor bright img offset =
     andThen (py_get (seq_items offset) 0) (\<lambda>ox.
     andThen (py_get (seq_items offset) 1) (\<lambda>oy.
     getBufferFromImage l color_scale bgcolor bright img (ox, oy)))"

definition getBufferFromPath_seq ::
  "filesystem \<Rightarrow> led \<Rightarrow> (color \<Rightarrow> int \<Rightarrow> color) \<Rightarrow> color \<Rightarrow> int \<Rightarrow> string \<Rightarrow> py_seq
     \<Rightarrow> error + (int option \<times> int list)" where
  "getBufferFromPath_seq fs l color_scale bgcolor bright imagePath offset =
     (case Image_open fs imagePath of
        None \<Rightarrow> Inl IOError
      | Some (img, rest) \<Rightarrow> getBufferFromImage_seq l color_scale bgcolor bright img offset)"

text \<open>Lines 112 to 119: the test is equality with the tuple \<^verbatim>\<open>(0, 0)\<close>.\<close>

definition gif_offset_seq :: "led \<Rightarrow> image \<Rightarrow> py_seq \<Rightarrow> py_seq" where
  "gif_offset_seq l img offset =
     (if offset = PyTuple [0, 0]
      then (let w = (if fst (img_size img) < width l
                     then (width l - fst (img_size img)) div 2 else 0);
                h = (if snd (img_size img) < height l
                     then (height l - snd (img_size img)) div 2 else 0)
            in PyTuple [w, h])
      else offset)"

definition append_frame_seq ::
  "led \<Rightarrow> (color \<Rightarrow> int \<Rightarrow> color) \<Rightarrow> color \<Rightarrow> int \<Rightarrow> py_seq \<Rightarrow> image
     \<Rightarrow> (int option \<times> int list) list \<times> int \<Rightarrow> error + ((int option \<times> int list) list \<times> int)" where
  "append_frame_seq l color_scale bgcolor bright offset frame acc =
     (case acc of (images, count) \<Rightarrow>
        andThen (getBufferFromImage_seq l color_scale bgcolor bright frame offset) (\<lambda>rendered.
        Inr (images @ [rendered], count + 1)))"

definition append_path_seq ::
  "filesystem \<Rightarrow> led \<Rightarrow> (color \<Rightarrow> int \<Rightarrow> color) \<Rightarrow> color \<Rightarrow> int \<Rightarrow> py_seq \<Rightarrow> string
     \<Rightarrow> (int option \<times> int list) list \<Rightarrow> error + (int option \<times> int list) list" where
  "append_path_seq fs l color_scale bgcolor bright offset img images =
     (if offset = PyTuple [0, 0] then Inl AttributeError
      else
        andThen (getBufferFromPath_seq fs l color_scale bgcolor bright img offset) (\<lambda>rendered.
        Inr (images @ [rendered])))"

definition init_seq ::
  "filesystem \<Rightarrow> (color \<Rightarrow> int \<Rightarrow> color) \<Rightarrow> led \<Rightarrow> string \<Rightarrow> py_seq \<Rightarrow> color \<Rightarrow> int
     \<Rightarrow> error + ImageAnim" where
  "init_seq fs color_scale l imagePath offset bgcolor brightness =
     (let bright = init_bright l brightness;
          bgcolor = color_scale bgcolor bright
      in if endswith imagePath ''.gif''
         then (case Image_open fs imagePath of
                 None \<Rightarrow> Inl IOError
               | Some (img, rest) \<Rightarrow>
                   let offset = gif_offset_seq l img offset
                   in andThen (for_each (append_frame_seq l color_scale bgcolor bright offset)
                                 (img # rest) ([], 0)) (\<lambda>(images, count).
                      Inr (new_anim l bright bgcolor offset images count)))
         else (let imageList = sort (glob fs (imagePath @ ''/*.bmp''));
                   count = int (length imageList)
               in if count = 0 then Inl ValueError
                  else andThen (for_each (append_path_seq fs l color_scale bgcolor bright offset)
                                  imageList []) (\<lambda>images.
                       Inr (new_anim l bright bgcolor offset images count))))"

definition preRun :: "ImageAnim \<Rightarrow> ImageAnim" where
  "preRun self = self\<lparr>self_curImage := 0\<rparr>"

definition step :: "ImageAnim \<Rightarrow> error + ImageAnim" where
  "step self =
     (let self = self\<lparr>self_led := all_off (self_led self)\<rparr>
      in andThen (py_get (self_images self) (self_curImage self)) (\<lambda>shown.
         let self = self\<lparr>self_led := setBuffer (self_led self) (snd shown)\<rparr>
         in andThen (py_get (self_images self) (self_curImage self)) (\<lambda>timed.
            let self = self\<lparr>self_internalDelay := fst timed\<rparr>;
                self = self\<lparr>self_curImage := self_curImage self + 1\<rparr>;
                self = (if self_curImage self \<ge> self_count self
                        then self\<lparr>self_curImage := 0, animComplete := True\<rparr>
                        else self)
            in Inr (self\<lparr>self_step := 0\<rparr>))))"

text \<open>A run of calls on the playback surface, and \<open>n\<close> steps in a row.\<close>

datatype call = Advance | Reset

fun play :: "call list \<Rightarrow> ImageAnim \<Rightarrow> error + ImageAnim" where
  "play [] self = Inr self"
| "play (Advance # cs) self = andThen (step self) (play cs)"
| "play (Reset # cs) self = play cs (preRun self)"

fun steps :: "nat \<Rightarrow> ImageAnim \<Rightarrow> error + ImageAnim" where
  "steps 0 self = Inr self"
| "steps (Suc n) self = andThen (step self) (steps n)"

subsection \<open>Well-formed states and concrete inputs\<close>

text \<open>
  The cursor invariant of a constructed animation: the count is the number of rendered
  frames and the cursor indexes one of them.
\<close>

definition cursor_ok :: "ImageAnim \<Rightarrow> bool" where
  "cursor_ok self \<longleftrightarrow>
     self_count self = int (length (self_images self)) \<and>
     0 \<le> self_curImage self \<and> self_curImage self < self_count self"

text \<open>
  A one-pixel layout with the identity gamma table, two one-pixel frames (one opaque
  white, one fully transparent), and a file system holding an animated file of these two
  frames and a folder with one still image.
\<close>

definition id_gamma :: "int list" where
  "id_gamma = [0..255]"

definition led1 :: led where
  "led1 = \<lparr>width = 1, height = 1, numLEDs = 1, bufByteCount = 3, matrix_map = [[0]],
     driver_gamma = id_gamma, masterBrightness = 255, led_buffer = [0, 0, 0]\<rparr>"

definition white :: image where
  "white = \<lparr>img_size = (1, 1), info_duration = Some 100, pixels = [(255, 255, 255, 255)]\<rparr>"

definition clear :: image where
  "clear = \<lparr>img_size = (1, 1), info_duration = Some 100, pixels = [(9, 9, 9, 0)]\<rparr>"

definition fs1 :: filesystem where
  "fs1 = \<lparr>Image_open = (\<lambda>p. if p = ''a.gif'' then Some (white, [clear])
                          else if p = ''d/1.bmp'' then Some (white, [])
                          else None),
          glob = (\<lambda>p. if p = ''d/*.bmp'' then [''d/1.bmp''] else [])\<rparr>"

text \<open>A two by two layout wired as a serpentine, with the identity gamma table.\<close>

definition led2 :: led where
  "led2 = \<lparr>width = 2, height = 2, numLEDs = 4, bufByteCount = 12, matrix_map = [[0, 1], [3, 2]],
     driver_gamma = id_gamma, masterBrightness = 255, led_buffer = replicate 12 0\<rparr>"

text \<open>The one-pixel layout dimmed to a master brightness of 128.\<close>

definition dim_led1 :: led where
  "dim_led1 = led1\<lparr>masterBrightness := 128\<rparr>"

text \<open>A strip of four LEDs in one row.\<close>

definition led4 :: led where
  "led4 = \<lparr>width = 4, height = 1, numLEDs = 4, bufByteCount = 12, matrix_map = [[0, 1, 2, 3]],
     driver_gamma = id_gamma, masterBrightness = 255, led_buffer = replicate 12 0\<rparr>"

subsection \<open>Well-formed inputs of the compositor\<close>

text \<open>
  Channels and samples are bytes; an image holds one sample per pixel of its size; a
  layout has one row per line and one cell per column, every cell a physical index below
  \<^verbatim>\<open>numLEDs\<close>, three buffer bytes per LED and a gamma table of 256 entries.
\<close>

definition wf_color :: "color \<Rightarrow> bool" where
  "wf_color c = (case c of (r, g, b) \<Rightarrow> 0 \<le> r \<and> r \<le> 255 \<and> 0 \<le> g \<and> g \<le> 255 \<and> 0 \<le> b \<and> b \<le> 255)"

definition wf_sample :: "rgba \<Rightarrow> bool" where
  "wf_sample s = (case s of (r, g, b, a) \<Rightarrow> wf_color (r, g, b) \<and> 0 \<le> a \<and> a \<le> 255)"

definition wf_image :: "image \<Rightarrow> bool" where
  "wf_image img \<longleftrightarrow>
     0 \<le> fst (img_size img) \<and> 0 \<le> snd (img_size img) \<and>
     int (length (pixels img)) = fst (img_size img) * snd (img_size img) \<and>
     list_all wf_sample (pixels img)"

definition wf_row :: "led \<Rightarrow> int list \<Rightarrow> bool" where
  "wf_row l row \<longleftrightarrow> int (length row) = width l \<and> list_all (\<lambda>p. 0 \<le> p \<and> p < numLEDs l) row"

definition wf_led :: "led \<Rightarrow> bool" where
  "wf_led l \<longleftrightarrow>
     0 \<le> numLEDs l \<and> int (length (matrix_map l)) = height l \<and> list_all (wf_row l) (matrix_map l) \<and>
     bufByteCount l = 3 * numLEDs l \<and> length (driver_gamma l) = 256"

text \<open>What the compositor needs of the scaling function at a brightness: bytes stay bytes.\<close>

definition scale_ok :: "(color \<Rightarrow> int \<Rightarrow> color) \<Rightarrow> int \<Rightarrow> bool" where
  "scale_ok color_scale bright \<longleftrightarrow> (\<forall>c. wf_color c \<longrightarrow> wf_color (color_scale c bright))"

subsection \<open>Reading a rendered buffer\<close>

text \<open>
  The physical index of a coordinate, the sample of an image at a coordinate, the
  coordinates the loops of \<^verbatim>\<open>_getBufferFromImage\<close> write (inside both ranges and not
  skipped), and the order in which they are visited: \<open>x\<close> in the outer loop, \<open>y\<close> in
  the inner one.
\<close>

definition pixelIndex :: "led \<Rightarrow> int \<times> int \<Rightarrow> int" where
  "pixelIndex l xy = (case xy of (x, y) \<Rightarrow> matrix_map l ! nat y ! nat x)"

definition sample :: "image \<Rightarrow> int \<times> int \<Rightarrow> rgba" where
  "sample img uv = (case uv of (u, v) \<Rightarrow> pixels img ! nat (v * fst (img_size img) + u))"

definition covered :: "led \<Rightarrow> image \<Rightarrow> int \<times> int \<Rightarrow> int \<times> int \<Rightarrow> bool" where
  "covered l img offset xy =
     (case xy of (x, y) \<Rightarrow>
        fst offset \<le> x \<and> x < overlap_w l img offset + fst offset \<and>
        snd offset \<le> y \<and> y < overlap_h l img offset + snd offset \<and> 0 \<le> x \<and> 0 \<le> y)"

definition visited_after :: "int \<times> int \<Rightarrow> int \<times> int \<Rightarrow> bool" where
  "visited_after xy xy' = (fst xy < fst xy' \<or> (fst xy = fst xy' \<and> snd xy < snd xy'))"

text \<open>The three bytes of a physical LED in a buffer, and the writing of them.\<close>

definition led_bytes :: "int list \<Rightarrow> int \<Rightarrow> int \<times> int \<times> int" where
  "led_bytes buffer p = (buffer ! nat (p * 3 + 0), buffer ! nat (p * 3 + 1), buffer ! nat (p * 3 + 2))"

definition write_led :: "int list \<Rightarrow> int \<Rightarrow> int \<times> int \<times> int \<Rightarrow> int list" where
  "write_led buffer p v =
     (case v of (a, b, c) \<Rightarrow>
        buffer[nat (p * 3 + 0) := a, nat (p * 3 + 1) := b, nat (p * 3 + 2) := c])"

text \<open>
  A colour through the gamma table, and the bytes the loop body writes for a coordinate.
\<close>

definition gamma_color :: "int list \<Rightarrow> color \<Rightarrow> int \<times> int \<times> int" where
  "gamma_color gamma c = (case c of (r, g, b) \<Rightarrow> (gamma ! nat r, gamma ! nat g, gamma ! nat b))"

definition painted ::
  "led \<Rightarrow> (color \<Rightarrow> int \<Rightarrow> color) \<Rightarrow> color \<Rightarrow> int \<Rightarrow> image \<Rightarrow> int \<times> int \<Rightarrow> int \<times> int
     \<Rightarrow> int \<times> int \<times> int" where
  "painted l color_scale bgcolor bright img offset xy =
     gamma_color (driver_gamma l)
       (pixel_color color_scale bgcolor bright
          (sample img (fst xy - fst offset, snd xy - snd offset)))"

text \<open>
  The colour of a sample before the brightness scaling (lines 70 to 75): the background
  for a transparent sample, the channels times alpha shifted right by 8 otherwise.
\<close>

definition composited :: "color \<Rightarrow> rgba \<Rightarrow> color" where
  "composited bgcolor s =
     (case s of (r, g, b, a) \<Rightarrow>
        if a = 0 then bgcolor
        else (drop_bit 8 (r * a), drop_bit 8 (g * a), drop_bit 8 (b * a)))"

text \<open>
  The two phases of \<^verbatim>\<open>_getBufferFromImage\<close> by name: the blank buffer with the
  background fill (lines 53 to 59), and the two loops over the overlap (lines 64 to 81).
\<close>

definition background :: "led \<Rightarrow> color \<Rightarrow> error + int list" where
  "background l bgcolor =
     (if bgcolor \<noteq> (0, 0, 0)
      then for_each (fill_led (driver_gamma l) bgcolor) (py_range 0 (numLEDs l))
             (replicate (nat (bufByteCount l)) 0)
      else Inr (replicate (nat (bufByteCount l)) 0))"

definition composite ::
  "led \<Rightarrow> (color \<Rightarrow> int \<Rightarrow> color) \<Rightarrow> color \<Rightarrow> int \<Rightarrow> image \<Rightarrow> int \<times> int \<Rightarrow> int list
     \<Rightarrow> error + int list" where
  "composite l color_scale bgcolor bright img offset buffer =
     for_each
       (\<lambda>x. for_each (set_pixel l color_scale bgcolor bright img (fst offset) (snd offset) x)
              (py_range (snd offset) (overlap_h l img offset + snd offset)))
       (py_range (fst offset) (overlap_w l img offset + fst offset)) buffer"

text \<open>An image whose samples all have alpha 255, and the coordinates of a layout.\<close>

definition opaque :: "image \<Rightarrow> bool" where
  "opaque img = list_all (\<lambda>s. case s of (r, g, b, a) \<Rightarrow> a = 255) (pixels img)"

definition in_layout :: "led \<Rightarrow> int \<times> int \<Rightarrow> bool" where
  "in_layout l xy = (case xy of (x, y) \<Rightarrow> 0 \<le> x \<and> x < width l \<and> 0 \<le> y \<and> y < height l)"

text \<open>
  Further concrete inputs: an opaque two by two image, a gamma table that sets the high bit
  of every entry (so that entry 0 is 128), a strip of two LEDs using it, and an image of
  size zero.
\<close>

definition quad :: image where
  "quad = \<lparr>img_size = (2, 2), info_duration = None,
     pixels = [(255, 0, 0, 255), (0, 255, 0, 255), (0, 0, 255, 255), (1, 2, 3, 255)]\<rparr>"

definition high_gamma :: "int list" where
  "high_gamma = map (\<lambda>i. 128 + i div 2) [0..255]"

definition strip2 :: led where
  "strip2 = \<lparr>width = 2, height = 1, numLEDs = 2, bufByteCount = 6, matrix_map = [[0, 1]],
     driver_gamma = high_gamma, masterBrightness = 255, led_buffer = replicate 6 0\<rparr>"

definition no_area :: image where
  "no_area = \<lparr>img_size = (0, 0), info_duration = None, pixels = []\<rparr>"

section \<open>Properties\<close>

subsection \<open>Sequencing\<close>

lemma andThen_Inr_iff: "andThen m f = Inr r \<longleftrightarrow> (\<exists>v. m = Inr v \<and> f v = Inr r)"
  by (cases m) (simp_all add: andThen_def)

lemma andThen_InrE:
  assumes "andThen m f = Inr r"
  obtains v where "m = Inr v" "f v = Inr r"
  using assms by (cases m) (simp_all add: andThen_def)

lemma andThen_Inr [simp]: "andThen (Inr v) f = f v"
  by (simp add: andThen_def)

lemma andThen_Inl [simp]: "andThen (Inl e) f = Inl e"
  by (simp add: andThen_def)

lemma for_each_append:
  "for_each body (us @ vs) s = andThen (for_each body us s) (for_each body vs)"
  by (induction us arbitrary: s) (auto simp: andThen_def split: sum.splits)

lemma append_frame_Inr:
  "append_frame l cs bg br off f (images, count) = Inr acc \<Longrightarrow>
     \<exists>rendered. getBufferFromImage l cs bg br f off = Inr rendered
       \<and> acc = (images @ [rendered], count + 1)"
  by (auto simp: append_frame_def andThen_Inr_iff)

lemma append_path_Inr:
  "append_path fs l cs bg br off p images = Inr acc \<Longrightarrow>
     \<exists>rendered. off \<noteq> (0, 0) \<and> getBufferFromPath fs l cs bg br p off = Inr rendered
       \<and> acc = images @ [rendered]"
  by (auto simp: append_path_def andThen_Inr_iff split: if_splits)

lemma append_frame_counts:
  "for_each (append_frame l cs bg br off) frames (images, count) = Inr (images', count') \<Longrightarrow>
     length images' = length images + length frames \<and> count' = count + int (length frames)"
proof (induction frames arbitrary: images count)
  case Nil
  then show ?case by simp
next
  case (Cons f frames)
  from Cons.prems obtain acc where
    acc: "append_frame l cs bg br off f (images, count) = Inr acc"
    and rest: "for_each (append_frame l cs bg br off) frames acc = Inr (images', count')"
    by (auto simp: andThen_Inr_iff)
  from append_frame_Inr [OF acc] obtain r where "acc = (images @ [r], count + 1)"
    by blast
  with rest Cons.IH [of "images @ [r]" "count + 1"] show ?case by simp
qed

lemma append_path_counts:
  "for_each (append_path fs l cs bg br off) paths images = Inr images' \<Longrightarrow>
     length images' = length images + length paths"
proof (induction paths arbitrary: images)
  case Nil
  then show ?case by simp
next
  case (Cons p paths)
  from Cons.prems obtain acc where
    acc: "append_path fs l cs bg br off p images = Inr acc"
    and rest: "for_each (append_path fs l cs bg br off) paths acc = Inr images'"
    by (auto simp: andThen_Inr_iff)
  from append_path_Inr [OF acc] obtain r where "acc = images @ [r]"
    by blast
  with rest Cons.IH [of "images @ [r]"] show ?case by simp
qed

lemma init_gif_Inr:
  assumes "init fs cs l imagePath offset bgcolor brightness = Inr self"
    and "endswith imagePath ''.gif''"
  obtains img rest images count where
    "Image_open fs imagePath = Some (img, rest)"
    "for_each (append_frame l cs (cs bgcolor (init_bright l brightness)) (init_bright l brightness)
       (gif_offset l img offset)) (img # rest) ([], 0) = Inr (images, count)"
    "self = new_anim l (init_bright l brightness) (cs bgcolor (init_bright l brightness))
       (PyTuple [fst (gif_offset l img offset), snd (gif_offset l img offset)])
       images count"
proof -
  from assms obtain img rest where op: "Image_open fs imagePath = Some (img, rest)"
    by (auto simp: init_def Let_def split: option.splits)
  define loop where "loop = for_each (append_frame l cs (cs bgcolor (init_bright l brightness))
       (init_bright l brightness) (gif_offset l img offset)) (img # rest) ([], 0)"
  from assms op have "andThen loop
       (\<lambda>(images, count). Inr (new_anim l (init_bright l brightness)
          (cs bgcolor (init_bright l brightness)) (PyTuple [fst (gif_offset l img offset), snd (gif_offset l img offset)])
       images count)) = Inr self"
    unfolding init_def Let_def loop_def by simp
  then obtain images count where "loop = Inr (images, count)"
    "self = new_anim l (init_bright l brightness) (cs bgcolor (init_bright l brightness))
       (PyTuple [fst (gif_offset l img offset), snd (gif_offset l img offset)])
       images count"
    by (cases loop) (auto simp: andThen_def)
  with op that show thesis
    unfolding loop_def by blast
qed

lemma init_folder_Inr:
  assumes "init fs cs l imagePath offset bgcolor brightness = Inr self"
    and "\<not> endswith imagePath ''.gif''"
  obtains imageList images where
    "imageList = sort (glob fs (imagePath @ ''/*.bmp''))" "imageList \<noteq> []"
    "for_each (append_path fs l cs (cs bgcolor (init_bright l brightness)) (init_bright l brightness)
       offset) imageList [] = Inr images"
    "self = new_anim l (init_bright l brightness) (cs bgcolor (init_bright l brightness))
       (PyTuple [fst offset, snd offset])
       images (int (length imageList))"
proof -
  define imageList where "imageList = sort (glob fs (imagePath @ ''/*.bmp''))"
  from assms have *: "(if int (length imageList) = 0 then Inl ValueError
     else andThen (for_each (append_path fs l cs (cs bgcolor (init_bright l brightness))
       (init_bright l brightness) offset) imageList [])
       (\<lambda>images. Inr (new_anim l (init_bright l brightness)
          (cs bgcolor (init_bright l brightness)) (PyTuple [fst offset, snd offset])
       images (int (length imageList))))) = Inr self"
    unfolding init_def Let_def imageList_def by simp
  then have ne: "imageList \<noteq> []"
    by (auto split: if_splits)
  with * have "andThen (for_each (append_path fs l cs (cs bgcolor (init_bright l brightness))
       (init_bright l brightness) offset) imageList [])
       (\<lambda>images. Inr (new_anim l (init_bright l brightness)
          (cs bgcolor (init_bright l brightness)) (PyTuple [fst offset, snd offset])
       images (int (length imageList)))) = Inr self"
    by simp
  then obtain images where
    "for_each (append_path fs l cs (cs bgcolor (init_bright l brightness)) (init_bright l brightness)
       offset) imageList [] = Inr images"
    "self = new_anim l (init_bright l brightness) (cs bgcolor (init_bright l brightness))
       (PyTuple [fst offset, snd offset])
       images (int (length imageList))"
    by (rule andThen_InrE) simp
  with imageList_def ne that show thesis by blast
qed

lemma init_cursor_ok:
  assumes "init fs cs l imagePath offset bgcolor brightness = Inr self"
  shows "cursor_ok self \<and> self_curImage self = 0 \<and> \<not> animComplete self"
proof (cases "endswith imagePath ''.gif''")
  case True
  from assms True obtain img rest images count where
    loop: "for_each (append_frame l cs (cs bgcolor (init_bright l brightness)) (init_bright l brightness)
             (gif_offset l img offset)) (img # rest) ([], 0) = Inr (images, count)"
    and self: "self = new_anim l (init_bright l brightness) (cs bgcolor (init_bright l brightness))
             (PyTuple [fst (gif_offset l img offset), snd (gif_offset l img offset)])
       images count"
    by (rule init_gif_Inr)
  from append_frame_counts [OF loop] show ?thesis
    by (simp add: self new_anim_def cursor_ok_def)
next
  case False
  from assms False obtain imageList images where
    ne: "imageList \<noteq> []"
    and loop: "for_each (append_path fs l cs (cs bgcolor (init_bright l brightness)) (init_bright l brightness)
             offset) imageList [] = Inr images"
    and self: "self = new_anim l (init_bright l brightness) (cs bgcolor (init_bright l brightness))
             (PyTuple [fst offset, snd offset])
       images (int (length imageList))"
    by (rule init_folder_Inr)
  from append_path_counts [OF loop] ne show ?thesis
    by (simp add: self new_anim_def cursor_ok_def)
qed

lemma py_get_in_range:
  "0 \<le> i \<Longrightarrow> i < int (length xs) \<Longrightarrow> py_get xs i = Inr (xs ! nat i)"
  by (simp add: py_get_def py_index_def)

lemma step_cursor_ok:
  assumes "cursor_ok self"
  shows "step self = Inr (self
           \<lparr>self_led := setBuffer (all_off (self_led self)) (snd (self_images self ! nat (self_curImage self))),
            self_internalDelay := fst (self_images self ! nat (self_curImage self)),
            self_curImage := (if self_curImage self + 1 \<ge> self_count self then 0 else self_curImage self + 1),
            animComplete := (self_curImage self + 1 \<ge> self_count self \<or> animComplete self),
            self_step := 0\<rparr>)"
  using assms by (simp add: step_def cursor_ok_def py_get_in_range Let_def)

lemma step_preserves:
  assumes "cursor_ok self"
  obtains self' where "step self = Inr self'" "cursor_ok self'"
    "self_images self' = self_images self" "self_count self' = self_count self"
    "self_curImage self' = (if self_curImage self + 1 = self_count self then 0 else self_curImage self + 1)"
    "animComplete self' \<longleftrightarrow> self_curImage self + 1 = self_count self \<or> animComplete self"
    "led_buffer (self_led self') = snd (self_images self ! nat (self_curImage self))"
    "self_internalDelay self' = fst (self_images self ! nat (self_curImage self))"
proof -
  let ?s = "self
           \<lparr>self_led := setBuffer (all_off (self_led self)) (snd (self_images self ! nat (self_curImage self))),
            self_internalDelay := fst (self_images self ! nat (self_curImage self)),
            self_curImage := (if self_curImage self + 1 \<ge> self_count self then 0 else self_curImage self + 1),
            animComplete := (self_curImage self + 1 \<ge> self_count self \<or> animComplete self),
            self_step := 0\<rparr>"
  show thesis
  proof (rule that [of ?s])
    show "step self = Inr ?s" by (rule step_cursor_ok [OF assms])
    show "cursor_ok ?s" using assms by (auto simp: cursor_ok_def)
    show "self_curImage ?s = (if self_curImage self + 1 = self_count self then 0 else self_curImage self + 1)"
      using assms by (auto simp: cursor_ok_def)
    show "animComplete ?s \<longleftrightarrow> self_curImage self + 1 = self_count self \<or> animComplete self"
      using assms by (auto simp: cursor_ok_def)
    show "led_buffer (self_led ?s) = snd (self_images self ! nat (self_curImage self))"
      by (simp add: setBuffer_def)
  qed simp_all
qed

lemma preRun_cursor_ok: "cursor_ok self \<Longrightarrow> cursor_ok (preRun self)"
  by (auto simp: cursor_ok_def preRun_def)

lemma play_cursor_ok:
  "cursor_ok self \<Longrightarrow> \<exists>self'. play calls self = Inr self' \<and> cursor_ok self'
     \<and> self_images self' = self_images self"
proof (induction calls arbitrary: self)
  case Nil
  then show ?case by simp
next
  case (Cons c calls)
  show ?case
  proof (cases c)
    case Advance
    from Cons.prems obtain s1 where s1: "step self = Inr s1" "cursor_ok s1" "self_images s1 = self_images self"
      by (rule step_preserves)
    from Cons.IH [OF s1(2)] s1 Advance show ?thesis by simp
  next
    case Reset
    from Cons.IH [OF preRun_cursor_ok [OF Cons.prems]] Reset show ?thesis
      by (simp add: preRun_def)
  qed
qed

subsection \<open>Playback\<close>

text \<open>
  C7. After any run of \<open>step\<close> and \<open>preRun\<close> calls on a constructed animation the
  cursor lies in \<open>[0, count)\<close>, where the count is the number of rendered frames and is
  at least 1; neither call can fail; and the \<open>step\<close> that moves the cursor to the count
  puts it back to 0 and sets \<open>animComplete\<close> in that same call.
\<close>

theorem C7:
  assumes "init fs color_scale l imagePath offset bgcolor brightness = Inr self0"
  shows "\<exists>self self'. play calls self0 = Inr self
           \<and> self_count self = int (length (self_images self)) \<and> 1 \<le> self_count self
           \<and> 0 \<le> self_curImage self \<and> self_curImage self < self_count self
           \<and> step self = Inr self'
           \<and> self_curImage self' =
               (if self_curImage self + 1 = self_count self then 0 else self_curImage self + 1)
           \<and> (self_curImage self + 1 = self_count self \<longrightarrow> animComplete self')"
proof -
  from init_cursor_ok [OF assms] have "cursor_ok self0" by simp
  from play_cursor_ok [OF this, of calls] obtain self where
    self: "play calls self0 = Inr self" "cursor_ok self" by blast
  from self(2) obtain self' where "step self = Inr self'"
    "self_curImage self' = (if self_curImage self + 1 = self_count self then 0 else self_curImage self + 1)"
    "animComplete self' \<longleftrightarrow> self_curImage self + 1 = self_count self \<or> animComplete self"
    by (rule step_preserves)
  with self show ?thesis by (auto simp: cursor_ok_def)
qed

lemma init_fs1_ok:
  "(case init fs1 color_scale_floor led1 ''a.gif'' (0, 0) (0, 0, 0) 255 of Inl e \<Rightarrow> False | Inr s \<Rightarrow> True)"
  by code_simp

theorem C7_witness:
  "(case andThen (init fs1 color_scale_floor led1 ''a.gif'' (0, 0) (0, 0, 0) 255)
           (play [Advance, Advance, Reset, Advance]) of
      Inl e \<Rightarrow> False
    | Inr self \<Rightarrow> 0 \<le> self_curImage self \<and> self_curImage self < self_count self)"
proof -
  from init_fs1_ok obtain s0 where
    s0: "init fs1 color_scale_floor led1 ''a.gif'' (0, 0) (0, 0, 0) 255 = Inr s0"
    by (auto split: sum.splits)
  from C7 [OF s0, of "[Advance, Advance, Reset, Advance]"] show ?thesis
    unfolding s0 by auto
qed

lemma steps_snoc: "steps (Suc n) self = andThen (steps n self) step"
proof (induction n arbitrary: self)
  case 0
  show ?case by (cases "step self") simp_all
next
  case (Suc n)
  show ?case
  proof (cases "step self")
    case (Inl e)
    then show ?thesis by simp
  next
    case (Inr s1)
    with Suc.IH [of s1] show ?thesis by simp
  qed
qed

lemma steps_state:
  "cursor_ok self \<Longrightarrow>
     \<exists>self'. steps n self = Inr self' \<and> cursor_ok self'
       \<and> self_images self' = self_images self \<and> self_count self' = self_count self
       \<and> self_curImage self' = (self_curImage self + int n) mod self_count self
       \<and> (animComplete self' \<longleftrightarrow> animComplete self \<or> self_count self \<le> self_curImage self + int n)"
proof (induction n arbitrary: self)
  case 0
  then show ?case by (auto simp: cursor_ok_def)
next
  case (Suc n)
  from Suc.prems obtain s1 where s1: "step self = Inr s1" "cursor_ok s1"
    "self_images s1 = self_images self" "self_count s1 = self_count self"
    "self_curImage s1 = (if self_curImage self + 1 = self_count self then 0 else self_curImage self + 1)"
    "animComplete s1 \<longleftrightarrow> self_curImage self + 1 = self_count self \<or> animComplete self"
    by (rule step_preserves)
  from Suc.IH [OF s1(2)] obtain s' where s': "steps n s1 = Inr s'" "cursor_ok s'"
    "self_images s' = self_images s1" "self_count s' = self_count s1"
    "self_curImage s' = (self_curImage s1 + int n) mod self_count s1"
    "animComplete s' \<longleftrightarrow> animComplete s1 \<or> self_count s1 \<le> self_curImage s1 + int n"
    by blast
  from Suc.prems have rng: "0 \<le> self_curImage self" "self_curImage self < self_count self"
    by (simp_all add: cursor_ok_def)
  have cur: "self_curImage s' = (self_curImage self + int (Suc n)) mod self_count self"
  proof (cases "self_curImage self + 1 = self_count self")
    case True
    then have "self_curImage self + int (Suc n) = int n + self_count self" by arith
    then have "(self_curImage self + int (Suc n)) mod self_count self = int n mod self_count self"
      by (simp only: mod_add_self2)
    with s'(5) s1(4,5) True show ?thesis by simp
  next
    case False
    then have "self_curImage s1 + int n = self_curImage self + int (Suc n)"
      using s1(5) by simp
    with s'(5) s1(4) show ?thesis by (simp only:)
  qed
  have fin: "animComplete s' \<longleftrightarrow> animComplete self \<or> self_count self \<le> self_curImage self + int (Suc n)"
    using s'(6) s1(4,5,6) rng by auto
  from s1(1) s' s1(3,4) cur fin show ?case by simp
qed

text \<open>
  C3, as the code has it. From a reset of any reachable state whose \<open>animComplete\<close> flag
  is still clear, fewer steps than there are frames leave the flag clear and the cursor at
  the number of steps taken; the step that shows the last frame sets the flag and puts the
  cursor back to 0; and one more step shows the first frame again (its buffer and its
  duration) while the flag stays set, since \<open>step\<close> only ever sets it.
\<close>

theorem C3_amended:
  assumes "init fs color_scale l imagePath offset bgcolor brightness = Inr constructed"
    and "play calls constructed = Inr reached"
    and "\<not> animComplete reached"
  shows "(\<forall>k < length (self_images reached). \<exists>self. steps k (preRun reached) = Inr self
            \<and> \<not> animComplete self \<and> self_curImage self = int k)
       \<and> (\<exists>self. steps (length (self_images reached)) (preRun reached) = Inr self
            \<and> animComplete self \<and> self_curImage self = 0)
       \<and> (\<exists>self. steps (Suc (length (self_images reached))) (preRun reached) = Inr self
            \<and> animComplete self
            \<and> led_buffer (self_led self) = snd (self_images reached ! 0)
            \<and> self_internalDelay self = fst (self_images reached ! 0))"
proof -
  from init_cursor_ok [OF assms(1)] have "cursor_ok constructed" by simp
  from play_cursor_ok [OF this, of calls] assms(2) have "cursor_ok reached" by simp
  then have ok: "cursor_ok (preRun reached)" by (rule preRun_cursor_ok)
  have pre: "self_curImage (preRun reached) = 0" "\<not> animComplete (preRun reached)"
    "self_images (preRun reached) = self_images reached"
    "self_count (preRun reached) = int (length (self_images reached))"
    using assms(3) \<open>cursor_ok reached\<close> by (simp_all add: preRun_def cursor_ok_def)
  have first: "\<exists>self. steps k (preRun reached) = Inr self
            \<and> \<not> animComplete self \<and> self_curImage self = int k"
    if "k < length (self_images reached)" for k
    using steps_state [OF ok, of k] pre that by auto
  from steps_state [OF ok, of "length (self_images reached)"] pre
  obtain s where s: "steps (length (self_images reached)) (preRun reached) = Inr s"
    "cursor_ok s" "self_images s = self_images reached" "animComplete s" "self_curImage s = 0"
    by auto
  from s(2) obtain s' where s': "step s = Inr s'"
    "animComplete s' \<longleftrightarrow> self_curImage s + 1 = self_count s \<or> animComplete s"
    "led_buffer (self_led s') = snd (self_images s ! nat (self_curImage s))"
    "self_internalDelay s' = fst (self_images s ! nat (self_curImage s))"
    by (rule step_preserves)
  have last: "\<exists>self. steps (Suc (length (self_images reached))) (preRun reached) = Inr self
            \<and> animComplete self
            \<and> led_buffer (self_led self) = snd (self_images reached ! 0)
            \<and> self_internalDelay self = fst (self_images reached ! 0)"
    unfolding steps_snoc using s s' by simp
  from first s last show ?thesis by blast
qed

text \<open>
  C3 as stated fails: with two frames, the third step leaves \<open>animComplete\<close> set.
\<close>

theorem C3_counterexample:
  "map_sum id animComplete
     (andThen (init fs1 color_scale_floor led1 ''a.gif'' (0, 0) (0, 0, 0) 255) (steps 3)) = Inr True"
  by code_simp

theorem C3_amended_witness:
  "map_sum id animComplete
     (andThen (init fs1 color_scale_floor led1 ''a.gif'' (0, 0) (0, 0, 0) 255) (steps 2)) = Inr True"
proof -
  from init_fs1_ok obtain s0 where
    s0: "init fs1 color_scale_floor led1 ''a.gif'' (0, 0) (0, 0, 0) 255 = Inr s0"
    by (auto split: sum.splits)
  have len: "map_sum id (\<lambda>s. length (self_images s))
      (init fs1 color_scale_floor led1 ''a.gif'' (0, 0) (0, 0, 0) 255) = Inr 2"
    by code_simp
  have p: "play [] s0 = Inr s0" by simp
  have fresh: "\<not> animComplete s0" "preRun s0 = s0"
    using init_cursor_ok [OF s0] by (simp_all add: preRun_def)
  from len s0 have "length (self_images s0) = 2" by simp
  with C3_amended [OF s0 p fresh(1)] fresh(2) show ?thesis
    unfolding s0 by auto
qed

text \<open>
  C6, as the code has it. After any number \<open>n\<close> of steps on a constructed animation,
  \<open>preRun\<close> changes the cursor to 0 and nothing else: \<open>animComplete\<close> keeps its value,
  which is set exactly when \<open>n\<close> is at least the number of frames.
\<close>

theorem C6_amended:
  assumes "init fs color_scale l imagePath offset bgcolor brightness = Inr constructed"
  shows "\<exists>self. steps n constructed = Inr self
           \<and> preRun self = self\<lparr>self_curImage := 0\<rparr>
           \<and> self_curImage (preRun self) = 0
           \<and> (animComplete (preRun self) \<longleftrightarrow> animComplete self)
           \<and> (animComplete (preRun self) \<longleftrightarrow> length (self_images constructed) \<le> n)"
proof -
  from init_cursor_ok [OF assms] have ok: "cursor_ok constructed"
    and fresh: "self_curImage constructed = 0" "\<not> animComplete constructed" by simp_all
  from steps_state [OF ok, of n] fresh ok show ?thesis
    by (auto simp: preRun_def cursor_ok_def)
qed

text \<open>
  C6 as stated fails: after two steps over two frames, \<open>preRun\<close> leaves \<open>animComplete\<close>
  set.
\<close>

theorem C6_counterexample:
  "map_sum id (\<lambda>self. animComplete (preRun self))
     (andThen (init fs1 color_scale_floor led1 ''a.gif'' (0, 0) (0, 0, 0) 255) (steps 2)) = Inr True"
  by code_simp

theorem C6_amended_witness:
  "map_sum id (\<lambda>self. (self_curImage (preRun self), animComplete (preRun self)))
     (andThen (init fs1 color_scale_floor led1 ''a.gif'' (0, 0) (0, 0, 0) 255) (steps 5))
   = Inr (0, True)"
proof -
  from init_fs1_ok obtain s0 where
    s0: "init fs1 color_scale_floor led1 ''a.gif'' (0, 0) (0, 0, 0) 255 = Inr s0"
    by (auto split: sum.splits)
  have len: "map_sum id (\<lambda>s. length (self_images s))
      (init fs1 color_scale_floor led1 ''a.gif'' (0, 0) (0, 0, 0) 255) = Inr 2"
    by code_simp
  from len s0 have "length (self_images s0) = 2" by simp
  with C6_amended [OF s0, of 5] show ?thesis
    unfolding s0 by auto
qed

subsection \<open>Construction\<close>

lemma append_frame_renders:
  "for_each (append_frame l cs bg br off) frames (images, count) = Inr (images', count') \<Longrightarrow>
     \<exists>rs. images' = images @ rs
       \<and> list_all2 (\<lambda>f r. getBufferFromImage l cs bg br f off = Inr r) frames rs"
proof (induction frames arbitrary: images count)
  case Nil
  then show ?case by simp
next
  case (Cons f frames)
  from Cons.prems obtain acc where
    acc: "append_frame l cs bg br off f (images, count) = Inr acc"
    and rest: "for_each (append_frame l cs bg br off) frames acc = Inr (images', count')"
    by (auto simp: andThen_Inr_iff)
  from append_frame_Inr [OF acc] obtain r where
    r: "getBufferFromImage l cs bg br f off = Inr r" "acc = (images @ [r], count + 1)"
    by blast
  from rest r(2) Cons.IH [of "images @ [r]" "count + 1"] obtain rs where
    "images' = (images @ [r]) @ rs"
    "list_all2 (\<lambda>f r. getBufferFromImage l cs bg br f off = Inr r) frames rs"
    by auto
  with r(1) have "images' = images @ (r # rs)
      \<and> list_all2 (\<lambda>f r. getBufferFromImage l cs bg br f off = Inr r) (f # frames) (r # rs)"
    by simp
  then show ?case by blast
qed

lemma append_path_renders:
  "for_each (append_path fs l cs bg br off) paths images = Inr images' \<Longrightarrow>
     \<exists>rs. images' = images @ rs
       \<and> list_all2 (\<lambda>p r. getBufferFromPath fs l cs bg br p off = Inr r) paths rs"
proof (induction paths arbitrary: images)
  case Nil
  then show ?case by simp
next
  case (Cons p paths)
  from Cons.prems obtain acc where
    acc: "append_path fs l cs bg br off p images = Inr acc"
    and rest: "for_each (append_path fs l cs bg br off) paths acc = Inr images'"
    by (auto simp: andThen_Inr_iff)
  from append_path_Inr [OF acc] obtain r where
    r: "getBufferFromPath fs l cs bg br p off = Inr r" "acc = images @ [r]"
    by blast
  from rest r(2) Cons.IH [of "images @ [r]"] obtain rs where
    "images' = (images @ [r]) @ rs"
    "list_all2 (\<lambda>p r. getBufferFromPath fs l cs bg br p off = Inr r) paths rs"
    by auto
  with r(1) have "images' = images @ (r # rs)
      \<and> list_all2 (\<lambda>p r. getBufferFromPath fs l cs bg br p off = Inr r) (p # paths) (r # rs)"
    by simp
  then show ?case by blast
qed

lemma getBufferFromPath_Inr:
  "getBufferFromPath fs l cs bg br p off = Inr r \<Longrightarrow>
     \<exists>img. getBufferFromImage l cs bg br img off = Inr r"
  by (auto simp: getBufferFromPath_def split: option.splits)

lemma init_fields:
  assumes "init fs cs l imagePath offset bgcolor brightness = Inr self"
  shows "self_bright self = init_bright l brightness"
    and "self_bgcolor self = cs bgcolor (init_bright l brightness)"
    and "self_led self = l"
proof -
  have "self_bright self = init_bright l brightness
     \<and> self_bgcolor self = cs bgcolor (init_bright l brightness) \<and> self_led self = l"
  proof (cases "endswith imagePath ''.gif''")
    case True
    from assms True obtain img rest images count where
      "self = new_anim l (init_bright l brightness) (cs bgcolor (init_bright l brightness))
               (PyTuple [fst (gif_offset l img offset), snd (gif_offset l img offset)])
       images count"
      by (rule init_gif_Inr)
    then show ?thesis by (simp add: new_anim_def)
  next
    case False
    from assms False obtain imageList :: "string list" and images where
      "self = new_anim l (init_bright l brightness) (cs bgcolor (init_bright l brightness))
               (PyTuple [fst offset, snd offset])
       images (int (length imageList))"
      by (rule init_folder_Inr)
    then show ?thesis by (simp add: new_anim_def)
  qed
  then show "self_bright self = init_bright l brightness"
    and "self_bgcolor self = cs bgcolor (init_bright l brightness)"
    and "self_led self = l" by simp_all
qed

lemma init_folder_zero_offset:
  assumes "\<not> endswith imagePath ''.gif''"
  shows "init fs cs l imagePath (0, 0) bgcolor brightness =
           (if glob fs (imagePath @ ''/*.bmp'') = [] then Inl ValueError else Inl AttributeError)"
proof (cases "sort (glob fs (imagePath @ ''/*.bmp''))")
  case Nil
  then have "glob fs (imagePath @ ''/*.bmp'') = []"
    by (metis length_0_conv length_sort)
  with assms show ?thesis by (simp add: init_def Let_def)
next
  case (Cons p ps)
  then have "glob fs (imagePath @ ''/*.bmp'') \<noteq> []" by auto
  with assms Cons show ?thesis
    by (simp add: init_def Let_def append_path_def)
qed

text \<open>
  C4 at a failing input. A folder holding one still image, opened with the default offset
  \<open>(0, 0)\<close> on the two by two layout: the constructor does not centre anything, it
  raises \<^verbatim>\<open>AttributeError\<close>, because the loop reads \<^verbatim>\<open>img.size\<close> of a path string.
\<close>

theorem C4_folder_default_offset_fails:
  "init fs1 color_scale_floor led2 ''d'' (0, 0) (0, 0, 0) 255 = Inl AttributeError"
  by code_simp

subsection \<open>Loops and buffers\<close>

lemma py_set_in_range:
  "0 \<le> i \<Longrightarrow> i < int (length xs) \<Longrightarrow> py_set xs i v = Inr (xs[nat i := v])"
  by (simp add: py_set_def py_index_def)

lemma for_each_preserves:
  assumes "for_each body vs s = Inr s'" and "P s"
    and "\<And>v t t'. v \<in> set vs \<Longrightarrow> P t \<Longrightarrow> body v t = Inr t' \<Longrightarrow> P t'"
  shows "P s'"
  using assms
proof (induction vs arbitrary: s)
  case Nil
  then show ?case by simp
next
  case (Cons v vs)
  from Cons.prems(1) obtain t where t: "body v s = Inr t" "for_each body vs t = Inr s'"
    by (auto simp: andThen_Inr_iff)
  have "P t"
    by (rule Cons.prems(3) [of v s t]) (simp_all add: Cons.prems(2) t(1))
  moreover have "P u'" if "w \<in> set vs" "P u" "body w u = Inr u'" for w u u'
    by (rule Cons.prems(3) [of w u u']) (simp_all add: that)
  ultimately show ?case
    by (rule Cons.IH [OF t(2)])
qed

lemma for_each_total:
  assumes "I s"
    and "\<And>v t. v \<in> set vs \<Longrightarrow> I t \<Longrightarrow> \<exists>t'. body v t = Inr t' \<and> I t'"
  shows "\<exists>s'. for_each body vs s = Inr s' \<and> I s'"
  using assms
proof (induction vs arbitrary: s)
  case Nil
  then show ?case by simp
next
  case (Cons v vs)
  from Cons.prems(2) [of v s] Cons.prems(1) obtain t where t: "body v s = Inr t" "I t"
    by auto
  from Cons.IH [OF t(2)] Cons.prems(2) obtain s' where "for_each body vs t = Inr s'" "I s'"
    by auto
  with t(1) show ?case by simp
qed

lemma led_bytes_write_other:
  "0 \<le> p \<Longrightarrow> 0 \<le> q \<Longrightarrow> p \<noteq> q \<Longrightarrow>
     led_bytes (buffer[nat (q * 3 + 0) := a, nat (q * 3 + 1) := b, nat (q * 3 + 2) := c]) p
       = led_bytes buffer p"
  by (simp add: led_bytes_def nth_list_update nat_eq_iff)

lemma led_bytes_write_same:
  "0 \<le> p \<Longrightarrow> p * 3 + 2 < int (length buffer) \<Longrightarrow>
     led_bytes (buffer[nat (p * 3 + 0) := a, nat (p * 3 + 1) := b, nat (p * 3 + 2) := c]) p
       = (a, b, c)"
  by (simp add: led_bytes_def nth_list_update nat_eq_iff)

lemma fill_led_wf:
  assumes "wf_color bgcolor" "length gamma = 256" "0 \<le> i" "i * 3 + 2 < int (length buffer)"
  shows "fill_led gamma bgcolor i buffer =
     Inr (case gamma_color gamma bgcolor of (a, b, c) \<Rightarrow>
            buffer[nat (i * 3 + 0) := a, nat (i * 3 + 1) := b, nat (i * 3 + 2) := c])"
  using assms
  by (cases bgcolor)
     (simp add: fill_led_def wf_color_def gamma_color_def py_get_in_range py_set_in_range)


subsection \<open>One pixel\<close>

lemma matrix_map_lookup:
  assumes "wf_led l" "0 \<le> x" "x < width l" "0 \<le> y" "y < height l"
  shows "py_get (matrix_map l) y = Inr (matrix_map l ! nat y)"
    and "py_get (matrix_map l ! nat y) x = Inr (pixelIndex l (x, y))"
    and "0 \<le> pixelIndex l (x, y)" and "pixelIndex l (x, y) < numLEDs l"
proof -
  from assms have len: "int (length (matrix_map l)) = height l"
    and rows: "list_all (wf_row l) (matrix_map l)"
    by (simp_all add: wf_led_def)
  from len assms(4,5) have y: "nat y < length (matrix_map l)" by simp
  with rows have row: "wf_row l (matrix_map l ! nat y)"
    by (simp add: list_all_length)
  then have rlen: "int (length (matrix_map l ! nat y)) = width l"
    and cells: "list_all (\<lambda>p. 0 \<le> p \<and> p < numLEDs l) (matrix_map l ! nat y)"
    by (simp_all add: wf_row_def)
  from rlen assms(2,3) have x: "nat x < length (matrix_map l ! nat y)" by simp
  show "py_get (matrix_map l) y = Inr (matrix_map l ! nat y)"
    using assms(4,5) len by (simp add: py_get_in_range)
  show "py_get (matrix_map l ! nat y) x = Inr (pixelIndex l (x, y))"
    using assms(2,3) rlen by (simp add: py_get_in_range pixelIndex_def)
  from cells x show "0 \<le> pixelIndex l (x, y)" and "pixelIndex l (x, y) < numLEDs l"
    by (simp_all add: list_all_length pixelIndex_def)
qed

lemma getpixel_wf:
  assumes "wf_image img" "0 \<le> u" "u < fst (img_size img)" "0 \<le> v" "v < snd (img_size img)"
  shows "getpixel img (u, v) = Inr (sample img (u, v))" and "wf_sample (sample img (u, v))"
proof -
  obtain fw fh where sz: "img_size img = (fw, fh)" by (cases "img_size img")
  from assms sz have len: "int (length (pixels img)) = fw * fh"
    and all: "list_all wf_sample (pixels img)" and u: "0 \<le> u" "u < fw" and v: "0 \<le> v" "v < fh"
    by (simp_all add: wf_image_def)
  from v(2) have "v + 1 \<le> fh" by simp
  with u(1,2) have "(v + 1) * fw \<le> fh * fw"
    by (intro mult_right_mono) simp_all
  with u(2) have hi: "v * fw + u < fw * fh"
    by (simp add: algebra_simps)
  from u v have lo: "0 \<le> v * fw + u" by simp
  show "getpixel img (u, v) = Inr (sample img (u, v))"
    using u v lo hi len by (simp add: getpixel_def sz sample_def py_get_in_range)
  from lo hi len have "nat (v * fw + u) < length (pixels img)" by simp
  with all show "wf_sample (sample img (u, v))"
    by (simp add: list_all_length sample_def sz)
qed

lemma premultiply_range:
  assumes "0 \<le> (c::int)" "c \<le> 255" "0 \<le> (a::int)" "a \<le> 255"
  shows "0 \<le> drop_bit 8 (c * a)" and "drop_bit 8 (c * a) \<le> 255"
proof -
  from assms have "c * a \<le> 255 * 255" by (intro mult_mono) simp_all
  moreover from assms have "0 \<le> c * a" by simp
  ultimately show "0 \<le> drop_bit 8 (c * a)" and "drop_bit 8 (c * a) \<le> 255"
    by (simp_all add: drop_bit_eq_div)
qed

lemma pixel_color_wf:
  assumes "wf_sample s" "wf_color bgcolor" "bright \<noteq> 255 \<longrightarrow> scale_ok color_scale bright"
  shows "wf_color (pixel_color color_scale bgcolor bright s)"
proof -
  obtain r g b a where s: "s = (r, g, b, a)" by (cases s)
  define rgb where "rgb = (if a = 0 then bgcolor
     else (drop_bit 8 (r * a), drop_bit 8 (g * a), drop_bit 8 (b * a)))"
  from assms(1) s have "wf_color (drop_bit 8 (r * a), drop_bit 8 (g * a), drop_bit 8 (b * a))"
    by (simp add: wf_sample_def wf_color_def premultiply_range)
  with assms(2) have "wf_color rgb" by (simp add: rgb_def)
  have "wf_color (if bright \<noteq> 255 then color_scale rgb bright else rgb)"
  proof (cases "bright = 255")
    case True
    with \<open>wf_color rgb\<close> show ?thesis by simp
  next
    case False
    with assms(3) have "scale_ok color_scale bright" by simp
    then have "wf_color (color_scale rgb bright)"
      using \<open>wf_color rgb\<close> unfolding scale_ok_def by blast
    with False show ?thesis by simp
  qed
  moreover have "pixel_color color_scale bgcolor bright s
      = (if bright \<noteq> 255 then color_scale rgb bright else rgb)"
    by (simp add: pixel_color_def s rgb_def Let_def)
  ultimately show ?thesis by (simp only:)
qed

lemma gamma_lookup:
  assumes "length gamma = 256" "wf_color c"
  shows "(case c of (r, g, b) \<Rightarrow>
           py_get gamma r = Inr (fst (gamma_color gamma c))
         \<and> py_get gamma g = Inr (fst (snd (gamma_color gamma c)))
         \<and> py_get gamma b = Inr (snd (snd (gamma_color gamma c))))"
  using assms by (cases c) (simp add: wf_color_def gamma_color_def py_get_in_range)

lemma set_pixel_wf:
  assumes "wf_led l" "wf_image img" "wf_color bgcolor"
    and "bright \<noteq> 255 \<longrightarrow> scale_ok color_scale bright"
    and "covered l img (ox, oy) (x, y)"
    and "int (length buffer) = 3 * numLEDs l"
  shows "set_pixel l color_scale bgcolor bright img ox oy x y buffer =
           Inr (case painted l color_scale bgcolor bright img (ox, oy) (x, y) of (a, b, c) \<Rightarrow>
                  buffer[nat (pixelIndex l (x, y) * 3 + 0) := a,
                         nat (pixelIndex l (x, y) * 3 + 1) := b,
                         nat (pixelIndex l (x, y) * 3 + 2) := c])"
proof -
  from assms(5) have pos: "0 \<le> x" "0 \<le> y" and lo: "0 \<le> x - ox" "0 \<le> y - oy"
    and xw: "x < width l" and yh: "y < height l"
    and xf: "x - ox < fst (img_size img)" and yf: "y - oy < snd (img_size img)"
    by (auto simp: covered_def overlap_w_def overlap_h_def Let_def split: if_splits)
  note mm = matrix_map_lookup [OF assms(1) pos(1) xw pos(2) yh]
  note gp = getpixel_wf [OF assms(2) lo(1) xf lo(2) yf]
  define col where "col = pixel_color color_scale bgcolor bright (sample img (x - ox, y - oy))"
  have wc: "wf_color col"
    unfolding col_def by (rule pixel_color_wf [OF gp(2) assms(3,4)])
  obtain r g b where col: "col = (r, g, b)" by (cases col)
  from assms(1) have glen: "length (driver_gamma l) = 256" by (simp add: wf_led_def)
  from gamma_lookup [OF glen wc] col have
    gl: "py_get (driver_gamma l) r = Inr (driver_gamma l ! nat r)"
        "py_get (driver_gamma l) g = Inr (driver_gamma l ! nat g)"
        "py_get (driver_gamma l) b = Inr (driver_gamma l ! nat b)"
    by (simp_all add: gamma_color_def)
  from mm(3,4) assms(6) have
    ix: "0 \<le> pixelIndex l (x, y) * 3 + 0" "pixelIndex l (x, y) * 3 + 0 < int (length buffer)"
        "0 \<le> pixelIndex l (x, y) * 3 + 1" "pixelIndex l (x, y) * 3 + 1 < int (length buffer)"
        "0 \<le> pixelIndex l (x, y) * 3 + 2" "pixelIndex l (x, y) * 3 + 2 < int (length buffer)"
    by simp_all
  have pt: "painted l color_scale bgcolor bright img (ox, oy) (x, y)
      = (driver_gamma l ! nat r, driver_gamma l ! nat g, driver_gamma l ! nat b)"
    using col by (simp add: painted_def col_def [symmetric] gamma_color_def)
  from pos have "\<not> (x < 0 \<or> y < 0)" by simp
  then show ?thesis
    unfolding set_pixel_def pt
    using mm(1,2) gp(1) col gl ix
    by (simp add: col_def [symmetric] py_set_in_range del: add_0_right)
qed

subsection \<open>The compositor\<close>

lemma getBufferFromImage_phases:
  "getBufferFromImage l cs bgcolor bright img offset =
     andThen (background l bgcolor) (\<lambda>buffer.
     andThen (composite l cs bgcolor bright img offset buffer) (\<lambda>buffer.
     Inr (info_duration img, buffer)))"
  by (simp add: getBufferFromImage_def background_def composite_def Let_def)

lemma py_range_iff: "x \<in> set (py_range a b) \<longleftrightarrow> a \<le> x \<and> x < b"
  by (auto simp: py_range_def)

lemma py_range_split:
  assumes "x \<in> set (py_range a b)"
  obtains xs1 xs2 where "py_range a b = xs1 @ x # xs2"
    and "\<forall>x'. x' \<in> set xs2 \<longleftrightarrow> x < x' \<and> x' < b"
proof -
  from assms have "a \<le> x" "x \<le> b - 1" by (simp_all add: py_range_iff)
  then have "[a..b - 1] = [a..x - 1] @ x # [x + 1..b - 1]"
    by (rule upto_split3)
  then have "py_range a b = [a..x - 1] @ x # [x + 1..b - 1]"
    by (simp add: py_range_def)
  moreover have "\<forall>x'. x' \<in> set [x + 1..b - 1] \<longleftrightarrow> x < x' \<and> x' < b"
    by auto
  ultimately show thesis by (rule that)
qed

lemma for_each_last_write:
  assumes run: "for_each body (vs1 @ v # vs2) s = Inr s'" and "I s"
    and inv: "\<And>w t t'. w \<in> set (vs1 @ v # vs2) \<Longrightarrow> I t \<Longrightarrow> body w t = Inr t' \<Longrightarrow> I t'"
    and wr: "\<And>t t'. I t \<Longrightarrow> body v t = Inr t' \<Longrightarrow> P t'"
    and keep: "\<And>w t t'. w \<in> set vs2 \<Longrightarrow> I t \<Longrightarrow> P t \<Longrightarrow> body w t = Inr t' \<Longrightarrow> P t'"
  shows "I s' \<and> P s'"
proof -
  from run obtain t1 where t1: "for_each body vs1 s = Inr t1"
    and rest: "for_each body (v # vs2) t1 = Inr s'"
    unfolding for_each_append by (rule andThen_InrE)
  from rest obtain t2 where t2: "body v t1 = Inr t2" and post: "for_each body vs2 t2 = Inr s'"
    by (auto simp: andThen_Inr_iff)
  have "I t1"
    by (rule for_each_preserves [where P = I, OF t1 \<open>I s\<close>]) (rule inv, simp_all)
  then have "P t2" using t2 by (rule wr)
  have "I t2" by (rule inv [OF _ \<open>I t1\<close> t2]) simp
  show ?thesis
  proof (rule for_each_preserves [where P = "\<lambda>t. I t \<and> P t", OF post])
    show "I t2 \<and> P t2" using \<open>I t2\<close> \<open>P t2\<close> by simp
  next
    fix w t t'
    assume w: "w \<in> set vs2" and t: "I t \<and> P t" and b: "body w t = Inr t'"
    from w have "w \<in> set (vs1 @ v # vs2)" by simp
    from inv [OF this _ b] keep [OF w _ _ b] t show "I t' \<and> P t'" by simp
  qed
qed

lemma length_write_led [simp]: "length (write_led buffer p v) = length buffer"
  by (cases v) (simp add: write_led_def)

lemma led_bytes_write_led_other:
  "0 \<le> p \<Longrightarrow> 0 \<le> q \<Longrightarrow> p \<noteq> q \<Longrightarrow> led_bytes (write_led buffer q v) p = led_bytes buffer p"
  by (cases v) (simp add: write_led_def led_bytes_write_other del: add_0_right)

lemma led_bytes_write_led_same:
  "0 \<le> p \<Longrightarrow> p * 3 + 2 < int (length buffer) \<Longrightarrow> led_bytes (write_led buffer p v) p = v"
  by (cases v) (simp add: write_led_def led_bytes_write_same del: add_0_right)

lemma set_pixel_in_loop:
  assumes wf: "wf_led l" "wf_image img" "wf_color bgcolor"
      "bright \<noteq> 255 \<longrightarrow> scale_ok cs bright"
    and x: "x \<in> set (py_range (fst offset) (overlap_w l img offset + fst offset))"
    and y: "y \<in> set (py_range (snd offset) (overlap_h l img offset + snd offset))"
    and len: "int (length t) = 3 * numLEDs l"
  shows "set_pixel l cs bgcolor bright img (fst offset) (snd offset) x y t =
           Inr (if covered l img offset (x, y)
                then write_led t (pixelIndex l (x, y)) (painted l cs bgcolor bright img offset (x, y))
                else t)"
proof (cases "x < 0 \<or> y < 0")
  case True
  then have "\<not> covered l img offset (x, y)" by (auto simp: covered_def)
  with True show ?thesis by (simp add: set_pixel_def)
next
  case False
  with x y have cov: "covered l img offset (x, y)"
    by (simp add: covered_def py_range_iff)
  then have "covered l img (fst offset, snd offset) (x, y)" by simp
  from set_pixel_wf [OF wf this len] cov show ?thesis
    by (simp add: write_led_def)
qed

lemma set_pixel_length:
  assumes wf: "wf_led l" "wf_image img" "wf_color bgcolor"
      "bright \<noteq> 255 \<longrightarrow> scale_ok cs bright"
    and x: "x \<in> set (py_range (fst offset) (overlap_w l img offset + fst offset))"
    and y: "y \<in> set (py_range (snd offset) (overlap_h l img offset + snd offset))"
    and len: "int (length t) = 3 * numLEDs l"
    and run: "set_pixel l cs bgcolor bright img (fst offset) (snd offset) x y t = Inr t'"
  shows "int (length t') = 3 * numLEDs l"
  using run len unfolding set_pixel_in_loop [OF wf x y len] by (auto split: if_splits)

lemma set_pixel_keeps:
  assumes wf: "wf_led l" "wf_image img" "wf_color bgcolor"
      "bright \<noteq> 255 \<longrightarrow> scale_ok cs bright"
    and x: "x \<in> set (py_range (fst offset) (overlap_w l img offset + fst offset))"
    and y: "y \<in> set (py_range (snd offset) (overlap_h l img offset + snd offset))"
    and len: "int (length t) = 3 * numLEDs l"
    and run: "set_pixel l cs bgcolor bright img (fst offset) (snd offset) x y t = Inr t'"
    and p: "0 \<le> p" "covered l img offset (x, y) \<longrightarrow> pixelIndex l (x, y) \<noteq> p"
  shows "led_bytes t' p = led_bytes t p"
proof (cases "covered l img offset (x, y)")
  case True
  then have "0 \<le> x" "x < width l" "0 \<le> y" "y < height l"
    by (auto simp: covered_def overlap_w_def overlap_h_def Let_def split: if_splits)
  from matrix_map_lookup(3) [OF wf(1) this] have "0 \<le> pixelIndex l (x, y)" .
  moreover from True p(2) have "p \<noteq> pixelIndex l (x, y)" by auto
  moreover from run True have
    "t' = write_led t (pixelIndex l (x, y)) (painted l cs bgcolor bright img offset (x, y))"
    unfolding set_pixel_in_loop [OF wf x y len] by simp
  ultimately show ?thesis using p(1) by (simp add: led_bytes_write_led_other)
next
  case False
  with run show ?thesis unfolding set_pixel_in_loop [OF wf x y len] by simp
qed

lemma set_pixel_writes:
  assumes wf: "wf_led l" "wf_image img" "wf_color bgcolor"
      "bright \<noteq> 255 \<longrightarrow> scale_ok cs bright"
    and x: "x \<in> set (py_range (fst offset) (overlap_w l img offset + fst offset))"
    and y: "y \<in> set (py_range (snd offset) (overlap_h l img offset + snd offset))"
    and len: "int (length t) = 3 * numLEDs l"
    and run: "set_pixel l cs bgcolor bright img (fst offset) (snd offset) x y t = Inr t'"
    and cov: "covered l img offset (x, y)"
  shows "led_bytes t' (pixelIndex l (x, y)) = painted l cs bgcolor bright img offset (x, y)"
proof -
  from cov have "0 \<le> x" "x < width l" "0 \<le> y" "y < height l"
    by (auto simp: covered_def overlap_w_def overlap_h_def Let_def split: if_splits)
  note mm = matrix_map_lookup(3,4) [OF wf(1) this]
  from run cov have
    "t' = write_led t (pixelIndex l (x, y)) (painted l cs bgcolor bright img offset (x, y))"
    unfolding set_pixel_in_loop [OF wf x y len] by simp
  moreover from mm len have "pixelIndex l (x, y) * 3 + 2 < int (length t)" by simp
  ultimately show ?thesis using mm(1) by (simp add: led_bytes_write_led_same)
qed

lemma composite_total:
  assumes wf: "wf_led l" "wf_image img" "wf_color bgcolor"
      "bright \<noteq> 255 \<longrightarrow> scale_ok cs bright"
    and len: "int (length s) = 3 * numLEDs l"
  shows "\<exists>s'. composite l cs bgcolor bright img offset s = Inr s' \<and> int (length s') = 3 * numLEDs l"
  unfolding composite_def
proof (rule for_each_total [where I = "\<lambda>t. int (length t) = 3 * numLEDs l", OF len])
  fix x and t :: "int list"
  assume x: "x \<in> set (py_range (fst offset) (overlap_w l img offset + fst offset))"
    and t: "int (length t) = 3 * numLEDs l"
  show "\<exists>t'. for_each (set_pixel l cs bgcolor bright img (fst offset) (snd offset) x)
           (py_range (snd offset) (overlap_h l img offset + snd offset)) t = Inr t'
         \<and> int (length t') = 3 * numLEDs l"
  proof (rule for_each_total [where I = "\<lambda>t. int (length t) = 3 * numLEDs l", OF t])
    fix y and u :: "int list"
    assume y: "y \<in> set (py_range (snd offset) (overlap_h l img offset + snd offset))"
      and u: "int (length u) = 3 * numLEDs l"
    show "\<exists>u'. set_pixel l cs bgcolor bright img (fst offset) (snd offset) x y u = Inr u'
           \<and> int (length u') = 3 * numLEDs l"
      unfolding set_pixel_in_loop [OF wf x y u] using u by simp
  qed
qed

lemma composite_length:
  assumes wf: "wf_led l" "wf_image img" "wf_color bgcolor"
      "bright \<noteq> 255 \<longrightarrow> scale_ok cs bright"
    and len: "int (length s) = 3 * numLEDs l"
    and run: "composite l cs bgcolor bright img offset s = Inr s'"
  shows "int (length s') = 3 * numLEDs l"
  using composite_total [OF wf len, of offset] run by auto

lemma composite_untouched:
  assumes wf: "wf_led l" "wf_image img" "wf_color bgcolor"
      "bright \<noteq> 255 \<longrightarrow> scale_ok cs bright"
    and len: "int (length s) = 3 * numLEDs l"
    and run: "composite l cs bgcolor bright img offset s = Inr s'"
    and p: "0 \<le> p" "\<And>xy. covered l img offset xy \<Longrightarrow> pixelIndex l xy \<noteq> p"
  shows "led_bytes s' p = led_bytes s p"
proof -
  let ?P = "\<lambda>t. int (length t) = 3 * numLEDs l \<and> led_bytes t p = led_bytes s p"
  have "?P s'"
  proof (rule for_each_preserves [where P = ?P, OF run [unfolded composite_def]])
    show "?P s" using len by simp
  next
    fix x t t'
    assume x: "x \<in> set (py_range (fst offset) (overlap_w l img offset + fst offset))"
      and t: "?P t"
      and inner: "for_each (set_pixel l cs bgcolor bright img (fst offset) (snd offset) x)
           (py_range (snd offset) (overlap_h l img offset + snd offset)) t = Inr t'"
    show "?P t'"
    proof (rule for_each_preserves [where P = ?P, OF inner t])
      fix y u u'
      assume y: "y \<in> set (py_range (snd offset) (overlap_h l img offset + snd offset))"
        and u: "?P u"
        and sp: "set_pixel l cs bgcolor bright img (fst offset) (snd offset) x y u = Inr u'"
      from u have lu: "int (length u) = 3 * numLEDs l" by simp
      have "covered l img offset (x, y) \<longrightarrow> pixelIndex l (x, y) \<noteq> p"
        using p(2) by blast
      from set_pixel_length [OF wf x y lu sp] set_pixel_keeps [OF wf x y lu sp p(1) this] u
      show "?P u'" by simp
    qed
  qed
  then show ?thesis by simp
qed

lemma composite_written:
  assumes wf: "wf_led l" "wf_image img" "wf_color bgcolor"
      "bright \<noteq> 255 \<longrightarrow> scale_ok cs bright"
    and len: "int (length s) = 3 * numLEDs l"
    and run: "composite l cs bgcolor bright img offset s = Inr s'"
    and cov: "covered l img offset (x, y)"
    and last: "\<And>xy'. covered l img offset xy' \<Longrightarrow> visited_after (x, y) xy' \<Longrightarrow>
                 pixelIndex l xy' \<noteq> pixelIndex l (x, y)"
  shows "led_bytes s' (pixelIndex l (x, y)) = painted l cs bgcolor bright img offset (x, y)"
proof -
  let ?I = "\<lambda>t. int (length t) = 3 * numLEDs l"
  let ?p = "pixelIndex l (x, y)"
  let ?P = "\<lambda>t. led_bytes t ?p = painted l cs bgcolor bright img offset (x, y)"
  let ?xs = "py_range (fst offset) (overlap_w l img offset + fst offset)"
  let ?ys = "py_range (snd offset) (overlap_h l img offset + snd offset)"
  let ?sp = "set_pixel l cs bgcolor bright img (fst offset) (snd offset)"
  from cov have xin: "x \<in> set ?xs" and yin: "y \<in> set ?ys"
    by (simp_all add: covered_def py_range_iff)
  from cov have "0 \<le> x" "x < width l" "0 \<le> y" "y < height l"
    by (auto simp: covered_def overlap_w_def overlap_h_def Let_def split: if_splits)
  from matrix_map_lookup(3) [OF wf(1) this] have p0: "0 \<le> ?p" .
  from xin obtain xs1 xs2 where xs: "?xs = xs1 @ x # xs2"
    and xs2: "\<forall>x'. x' \<in> set xs2 \<longleftrightarrow> x < x' \<and> x' < overlap_w l img offset + fst offset"
    by (rule py_range_split)
  from yin obtain ys1 ys2 where ys: "?ys = ys1 @ y # ys2"
    and ys2: "\<forall>y'. y' \<in> set ys2 \<longleftrightarrow> y < y' \<and> y' < overlap_h l img offset + snd offset"
    by (rule py_range_split)
  have inner_inv: "?I t'" if "x' \<in> set ?xs" "?I t" "for_each (?sp x') ?ys t = Inr t'" for x' t t'
  proof (rule for_each_preserves [where P = ?I, OF that(3,2)])
    fix y' u u'
    assume "y' \<in> set ?ys" "?I u" "?sp x' y' u = Inr u'"
    then show "?I u'" by (rule set_pixel_length [OF wf that(1)])
  qed
  have later: "led_bytes u' ?p = led_bytes u ?p"
    if "x' \<in> set ?xs" "y' \<in> set ?ys" "?I u" "?sp x' y' u = Inr u'" "visited_after (x, y) (x', y')"
    for x' y' u u'
  proof -
    have "covered l img offset (x', y') \<longrightarrow> pixelIndex l (x', y') \<noteq> ?p"
      using last [of "(x', y')"] that(5) by blast
    from set_pixel_keeps [OF wf that(1,2,3,4) p0 this] show ?thesis .
  qed
  from run have run': "for_each (\<lambda>x'. for_each (?sp x') ?ys) (xs1 @ x # xs2) s = Inr s'"
    by (simp add: composite_def xs)
  have "?I s' \<and> ?P s'"
  proof (rule for_each_last_write [where I = ?I and P = ?P, OF run' len])
    fix w t t'
    assume "w \<in> set (xs1 @ x # xs2)" "?I t" "for_each (?sp w) ?ys t = Inr t'"
    then have "w \<in> set ?xs" "?I t" "for_each (?sp w) ?ys t = Inr t'" by (simp_all add: xs)
    then show "?I t'" by (rule inner_inv)
  next
    fix t t'
    assume t: "?I t" and row: "for_each (?sp x) ?ys t = Inr t'"
    from row have row': "for_each (?sp x) (ys1 @ y # ys2) t = Inr t'" by (simp add: ys)
    have "?I t' \<and> ?P t'"
    proof (rule for_each_last_write [where I = ?I and P = ?P, OF row' t])
      fix w u u'
      assume "w \<in> set (ys1 @ y # ys2)" "?I u" "?sp x w u = Inr u'"
      then have "w \<in> set ?ys" "?I u" "?sp x w u = Inr u'" by (simp_all add: ys)
      then show "?I u'" by (rule set_pixel_length [OF wf xin])
    next
      fix u u'
      assume "?I u" "?sp x y u = Inr u'"
      then show "?P u'" by (rule set_pixel_writes [OF wf xin yin _ _ cov])
    next
      fix w u u'
      assume w: "w \<in> set ys2" and u: "?I u" "?P u" and sp: "?sp x w u = Inr u'"
      from w have win: "w \<in> set ?ys" by (simp add: ys)
      from w have "visited_after (x, y) (x, w)" by (simp add: ys2 visited_after_def)
      from later [OF xin win u(1) sp this] u(2) show "?P u'" by simp
    qed
    then show "?P t'" by simp
  next
    fix w t t'
    assume w: "w \<in> set xs2" and t: "?I t" "?P t" and row: "for_each (?sp w) ?ys t = Inr t'"
    from w have win: "w \<in> set ?xs" by (simp add: xs)
    from w have after: "visited_after (x, y) (w, y')" for y'
      by (simp add: xs2 visited_after_def)
    have "?I t' \<and> ?P t'"
    proof (rule for_each_preserves [where P = "\<lambda>t. ?I t \<and> ?P t", OF row])
      show "?I t \<and> ?P t" using t by simp
    next
      fix y' u u'
      assume y': "y' \<in> set ?ys" and u: "?I u \<and> ?P u" and sp: "?sp w y' u = Inr u'"
      from u have lu: "?I u" by simp
      from set_pixel_length [OF wf win y' lu sp] later [OF win y' lu sp after] u
      show "?I u' \<and> ?P u'" by simp
    qed
    then show "?P t'" by simp
  qed
  then show ?thesis by simp
qed

lemma fill_led_in_loop:
  assumes "wf_led l" "wf_color bgcolor"
    and i: "i \<in> set (py_range 0 (numLEDs l))"
    and len: "int (length t) = 3 * numLEDs l"
  shows "fill_led (driver_gamma l) bgcolor i t =
           Inr (write_led t i (gamma_color (driver_gamma l) bgcolor))"
proof -
  from assms(1) have glen: "length (driver_gamma l) = 256" by (simp add: wf_led_def)
  from i len have "0 \<le> i" "i * 3 + 2 < int (length t)" by (simp_all add: py_range_iff)
  from fill_led_wf [OF assms(2) glen this] show ?thesis
    by (simp add: write_led_def)
qed

lemma led_bytes_blank:
  assumes "0 \<le> p" "p * 3 + 2 < int n"
  shows "led_bytes (replicate n 0) p = (0, 0, 0)"
  using assms by (simp add: led_bytes_def)

lemma background_wf:
  assumes wf: "wf_led l" "wf_color bgcolor"
  obtains s where "background l bgcolor = Inr s" "int (length s) = 3 * numLEDs l"
    "\<forall>p. 0 \<le> p \<and> p < numLEDs l \<longrightarrow>
       led_bytes s p = (if bgcolor = (0, 0, 0) then (0, 0, 0)
                        else gamma_color (driver_gamma l) bgcolor)"
proof (cases "bgcolor = (0, 0, 0)")
  case True
  from wf(1) have n: "int (nat (bufByteCount l)) = 3 * numLEDs l" by (simp add: wf_led_def)
  show thesis
  proof (rule that [of "replicate (nat (bufByteCount l)) 0"])
    show "background l bgcolor = Inr (replicate (nat (bufByteCount l)) 0)"
      using True by (simp add: background_def)
    show "int (length (replicate (nat (bufByteCount l)) 0 :: int list)) = 3 * numLEDs l"
      using n by simp
    show "\<forall>p. 0 \<le> p \<and> p < numLEDs l \<longrightarrow>
       led_bytes (replicate (nat (bufByteCount l)) 0) p = (if bgcolor = (0, 0, 0) then (0, 0, 0)
                        else gamma_color (driver_gamma l) bgcolor)"
      using True n by (auto intro!: led_bytes_blank)
  qed
next
  case False
  let ?I = "\<lambda>t. int (length t) = 3 * numLEDs l"
  let ?b0 = "replicate (nat (bufByteCount l)) 0 :: int list"
  let ?gc = "gamma_color (driver_gamma l) bgcolor"
  let ?body = "fill_led (driver_gamma l) bgcolor"
  from wf(1) have b0: "?I ?b0" by (simp add: wf_led_def)
  have "\<exists>s. for_each ?body (py_range 0 (numLEDs l)) ?b0 = Inr s \<and> ?I s"
  proof (rule for_each_total [where I = ?I, OF b0])
    fix i and t :: "int list"
    assume "i \<in> set (py_range 0 (numLEDs l))" "?I t"
    then show "\<exists>t'. ?body i t = Inr t' \<and> ?I t'"
      by (simp add: fill_led_in_loop [OF wf])
  qed
  then obtain s where run: "for_each ?body (py_range 0 (numLEDs l)) ?b0 = Inr s" and s: "?I s"
    by blast
  have filled: "led_bytes s p = ?gc" if p: "0 \<le> p" "p < numLEDs l" for p
  proof -
    from p have "p \<in> set (py_range 0 (numLEDs l))" by (simp add: py_range_iff)
    then obtain is1 is2 where split: "py_range 0 (numLEDs l) = is1 @ p # is2"
      and is2: "\<forall>i. i \<in> set is2 \<longleftrightarrow> p < i \<and> i < numLEDs l"
      by (rule py_range_split)
    from run have run': "for_each ?body (is1 @ p # is2) ?b0 = Inr s" by (simp add: split)
    have "?I s \<and> led_bytes s p = ?gc"
    proof (rule for_each_last_write [where I = ?I and P = "\<lambda>t. led_bytes t p = ?gc", OF run' b0])
      fix w and t t' :: "int list"
      assume "w \<in> set (is1 @ p # is2)" "?I t" "?body w t = Inr t'"
      then have "w \<in> set (py_range 0 (numLEDs l))" "?I t" "?body w t = Inr t'"
        by (simp_all add: split)
      then show "?I t'" by (auto simp: fill_led_in_loop [OF wf])
    next
      fix t t' :: "int list"
      assume t: "?I t" "?body p t = Inr t'"
      from p have pin: "p \<in> set (py_range 0 (numLEDs l))" by (simp add: py_range_iff)
      from t p have "t' = write_led t p ?gc" "p * 3 + 2 < int (length t)"
        by (simp_all add: fill_led_in_loop [OF wf pin])
      with p(1) show "led_bytes t' p = ?gc" by (simp add: led_bytes_write_led_same)
    next
      fix w and t t' :: "int list"
      assume w: "w \<in> set is2" and t: "?I t" "led_bytes t p = ?gc" "?body w t = Inr t'"
      from w have win: "w \<in> set (py_range 0 (numLEDs l))" by (simp add: split)
      from w is2 p have "0 \<le> w" "p \<noteq> w" by auto
      moreover from t have "t' = write_led t w ?gc"
        by (simp add: fill_led_in_loop [OF wf win])
      ultimately show "led_bytes t' p = ?gc"
        using p(1) t(2) by (simp add: led_bytes_write_led_other)
    qed
    then show ?thesis by simp
  qed
  show thesis
  proof (rule that [of s])
    show "background l bgcolor = Inr s" using False run by (simp add: background_def)
    show "?I s" by (rule s)
    show "\<forall>p. 0 \<le> p \<and> p < numLEDs l \<longrightarrow>
       led_bytes s p = (if bgcolor = (0, 0, 0) then (0, 0, 0) else ?gc)"
      using False filled by simp
  qed
qed

lemma render_total:
  assumes wf: "wf_led l" "wf_image img" "wf_color bgcolor"
      "bright \<noteq> 255 \<longrightarrow> scale_ok cs bright"
  obtains s buffer where "background l bgcolor = Inr s" "int (length s) = 3 * numLEDs l"
    "composite l cs bgcolor bright img offset s = Inr buffer"
    "int (length buffer) = 3 * numLEDs l"
    "getBufferFromImage l cs bgcolor bright img offset = Inr (info_duration img, buffer)"
    "\<forall>p. 0 \<le> p \<and> p < numLEDs l \<longrightarrow>
       led_bytes s p = (if bgcolor = (0, 0, 0) then (0, 0, 0)
                        else gamma_color (driver_gamma l) bgcolor)"
proof -
  from wf(1,3) obtain s where s: "background l bgcolor = Inr s" "int (length s) = 3 * numLEDs l"
    "\<forall>p. 0 \<le> p \<and> p < numLEDs l \<longrightarrow>
       led_bytes s p = (if bgcolor = (0, 0, 0) then (0, 0, 0)
                        else gamma_color (driver_gamma l) bgcolor)"
    by (rule background_wf)
  from composite_total [OF wf s(2), of offset] obtain buffer where
    b: "composite l cs bgcolor bright img offset s = Inr buffer" "int (length buffer) = 3 * numLEDs l"
    by blast
  from s(1) b(1) have "getBufferFromImage l cs bgcolor bright img offset = Inr (info_duration img, buffer)"
    by (simp add: getBufferFromImage_phases)
  with s b that show thesis by blast
qed

lemma sample_in_pixels:
  assumes "wf_image img" "0 \<le> u" "u < fst (img_size img)" "0 \<le> v" "v < snd (img_size img)"
  shows "sample img (u, v) \<in> set (pixels img)"
proof -
  obtain fw fh where sz: "img_size img = (fw, fh)" by (cases "img_size img")
  from assms sz have len: "int (length (pixels img)) = fw * fh"
    and u: "0 \<le> u" "u < fw" and v: "0 \<le> v" "v < fh"
    by (simp_all add: wf_image_def)
  from v(2) have "v + 1 \<le> fh" by simp
  with u(1,2) have "(v + 1) * fw \<le> fh * fw"
    by (intro mult_right_mono) simp_all
  with u(2) have "v * fw + u < fw * fh"
    by (simp add: algebra_simps)
  moreover from u v have "0 \<le> v * fw + u" by simp
  ultimately have "nat (v * fw + u) < length (pixels img)" using len by simp
  then show ?thesis by (simp add: sample_def sz)
qed

lemma render_pixel:
  assumes wf: "wf_led l" "wf_image img" "wf_color bgcolor"
      "bright \<noteq> 255 \<longrightarrow> scale_ok cs bright"
    and cov: "covered l img offset (x, y)"
    and last: "\<forall>xy'. covered l img offset xy' \<and> visited_after (x, y) xy' \<longrightarrow>
                 pixelIndex l xy' \<noteq> pixelIndex l (x, y)"
  shows "\<exists>buffer. getBufferFromImage l cs bgcolor bright img offset = Inr (info_duration img, buffer)
           \<and> led_bytes buffer (pixelIndex l (x, y)) = painted l cs bgcolor bright img offset (x, y)"
proof -
  from wf obtain s buffer where s: "int (length s) = 3 * numLEDs l"
    and run: "composite l cs bgcolor bright img offset s = Inr buffer"
    and res: "getBufferFromImage l cs bgcolor bright img offset = Inr (info_duration img, buffer)"
    by (rule render_total)
  have "led_bytes buffer (pixelIndex l (x, y)) = painted l cs bgcolor bright img offset (x, y)"
    by (rule composite_written [OF wf s run cov]) (use last in blast)
  with res show ?thesis by blast
qed

lemma transparent_pixel:
  assumes wf: "wf_led l" "wf_image img" "wf_color bgcolor"
      "bright \<noteq> 255 \<longrightarrow> scale_ok cs bright"
    and cov: "covered l img offset (x, y)"
    and last: "\<forall>xy'. covered l img offset xy' \<and> visited_after (x, y) xy' \<longrightarrow>
                 pixelIndex l xy' \<noteq> pixelIndex l (x, y)"
    and clear: "sample img (x - fst offset, y - snd offset) = (r, g, b, 0)"
  shows "\<exists>buffer. getBufferFromImage l cs bgcolor bright img offset = Inr (info_duration img, buffer)
           \<and> led_bytes buffer (pixelIndex l (x, y)) =
               gamma_color (driver_gamma l) (if bright \<noteq> 255 then cs bgcolor bright else bgcolor)"
  using render_pixel [OF wf cov last] clear
  by (simp add: painted_def pixel_color_def)

text \<open>
  C1 at a failing input. An animated file whose second frame is one fully transparent
  pixel, on the one-pixel layout with the identity gamma table, background white and
  brightness 128: the constructor keeps the background scaled once, \<open>(128, 128, 128)\<close>,
  but the transparent pixel is rendered as \<open>(64, 64, 64)\<close>, the background scaled a
  second time in the loop, and not as the gamma of the kept background.
\<close>

theorem C1_transparent_pixel_scaled_twice:
  "map_sum id (\<lambda>self. (self_bgcolor self, map snd (self_images self)))
     (init fs1 color_scale_floor led1 ''a.gif'' (0, 0) (255, 255, 255) 128)
     = Inr ((128, 128, 128), [[127, 127, 127], [64, 64, 64]])
   \<and> gamma_color (driver_gamma led1) (128, 128, 128) = (128, 128, 128)"
  by code_simp

lemma shift_255:
  assumes "0 \<le> (c::int)" "c \<le> 255"
  shows "drop_bit 8 (c * 255) = max 0 (c - 1)"
  using assms by (simp add: drop_bit_eq_div)

text \<open>
  C2, as the code has it. For a well-formed layout and an opaque frame of the layout's
  size rendered at brightness 255 and offset \<open>(0, 0)\<close>, the bytes at the physical index of
  a coordinate that no later-visited coordinate shares are the gamma table applied to each
  sample multiplied by 255 and shifted right by 8, which is the sample less one (and 0 for
  0): the composite is not the identity on the samples.
\<close>

theorem C2_amended:
  assumes "wf_led l" "wf_image img" "wf_color bgcolor"
    and "img_size img = (width l, height l)" and "opaque img"
    and "in_layout l (x, y)"
    and "\<forall>xy'. in_layout l xy' \<and> visited_after (x, y) xy' \<longrightarrow>
           pixelIndex l xy' \<noteq> pixelIndex l (x, y)"
  shows "\<exists>buffer. getBufferFromImage l color_scale bgcolor 255 img (0, 0)
             = Inr (info_duration img, buffer)
           \<and> (case sample img (x, y) of (r, g, b, a) \<Rightarrow>
                led_bytes buffer (pixelIndex l (x, y)) =
                  gamma_color (driver_gamma l)
                    (drop_bit 8 (r * 255), drop_bit 8 (g * 255), drop_bit 8 (b * 255))
              \<and> (drop_bit 8 (r * 255), drop_bit 8 (g * 255), drop_bit 8 (b * 255))
                  = (max 0 (r - 1), max 0 (g - 1), max 0 (b - 1)))"
proof -
  have cov: "covered l img (0, 0) xy \<longleftrightarrow> in_layout l xy" for xy
    using assms(4) by (cases xy) (auto simp: covered_def in_layout_def overlap_w_def overlap_h_def)
  have sc: "(255::int) \<noteq> 255 \<longrightarrow> scale_ok color_scale 255" by simp
  from assms(6) have c: "covered l img (0, 0) (x, y)" by (simp add: cov)
  from assms(7) have last: "\<forall>xy'. covered l img (0, 0) xy' \<and> visited_after (x, y) xy' \<longrightarrow>
           pixelIndex l xy' \<noteq> pixelIndex l (x, y)"
    by (simp add: cov)
  from render_pixel [OF assms(1,2,3) sc c last] obtain buffer where
    res: "getBufferFromImage l color_scale bgcolor 255 img (0, 0) = Inr (info_duration img, buffer)"
    and px: "led_bytes buffer (pixelIndex l (x, y)) = painted l color_scale bgcolor 255 img (0, 0) (x, y)"
    by blast
  obtain r g b a where smp: "sample img (x, y) = (r, g, b, a)" by (cases "sample img (x, y)")
  from assms(4,6) have rng: "0 \<le> x" "x < fst (img_size img)" "0 \<le> y" "y < snd (img_size img)"
    by (simp_all add: in_layout_def)
  from sample_in_pixels [OF assms(2) rng] have mem: "sample img (x, y) \<in> set (pixels img)" .
  with assms(5) smp have a: "a = 255" by (auto simp: opaque_def list_all_iff)
  from mem assms(2) smp have "wf_sample (r, g, b, a)" by (auto simp: wf_image_def list_all_iff)
  then have "0 \<le> r" "r \<le> 255" "0 \<le> g" "g \<le> 255" "0 \<le> b" "b \<le> 255"
    by (simp_all add: wf_sample_def wf_color_def)
  then have sh: "drop_bit 8 (r * 255) = max 0 (r - 1)" "drop_bit 8 (g * 255) = max 0 (g - 1)"
    "drop_bit 8 (b * 255) = max 0 (b - 1)"
    by (simp_all only: shift_255)
  from px smp a have "led_bytes buffer (pixelIndex l (x, y)) = gamma_color (driver_gamma l)
      (drop_bit 8 (r * 255), drop_bit 8 (g * 255), drop_bit 8 (b * 255))"
    by (simp add: painted_def pixel_color_def)
  with res smp sh show ?thesis by auto
qed

text \<open>
  C2 as stated fails: an opaque white pixel on the one-pixel layout is rendered as 254, not
  as the gamma of 255.
\<close>

theorem C2_counterexample:
  "opaque white \<and> img_size white = (width led1, height led1)
   \<and> getBufferFromImage led1 color_scale_floor (0, 0, 0) 255 white (0, 0)
       = Inr (Some 100, [254, 254, 254])
   \<and> gamma_color (driver_gamma led1) (255, 255, 255) = (255, 255, 255)"
  by code_simp

lemma wf_examples:
  "wf_led led1" "wf_led led2" "wf_led strip2" "wf_led led4"
  "wf_image white" "wf_image clear" "wf_image quad" "wf_image no_area"
  by code_simp+

theorem C2_amended_witness:
  "\<exists>buffer. getBufferFromImage led2 color_scale_floor (0, 0, 0) 255 quad (0, 0) = Inr (None, buffer)
     \<and> led_bytes buffer 2 = (0, 1, 2)"
proof -
  have bg: "wf_color (0, 0, 0)" by (simp add: wf_color_def)
  have sz: "img_size quad = (width led2, height led2)" by (simp add: quad_def led2_def)
  have op: "opaque quad" by (simp add: opaque_def quad_def)
  have inl: "in_layout led2 (1, 1)" by (simp add: in_layout_def led2_def)
  have last: "\<forall>xy'. in_layout led2 xy' \<and> visited_after (1, 1) xy' \<longrightarrow>
           pixelIndex led2 xy' \<noteq> pixelIndex led2 (1, 1)"
    by (auto simp: in_layout_def visited_after_def led2_def)
  have px: "pixelIndex led2 (1, 1) = 2" by (simp add: pixelIndex_def led2_def)
  have smp: "sample quad (1, 1) = (1, 2, 3, 255)" by (simp add: sample_def quad_def)
  have gm: "gamma_color (driver_gamma led2) (0, 1, 2) = (0, 1, 2)"
    by (simp add: gamma_color_def led2_def id_gamma_def)
  have dur: "info_duration quad = None" by (simp add: quad_def)
  from C2_amended [OF wf_examples(2) wf_examples(7) bg sz op inl last, of color_scale_floor]
  show ?thesis
    by (simp add: px smp gm dur drop_bit_eq_div)
qed

lemma color_scale_floor_ok:
  assumes "0 \<le> bright" "bright \<le> 255"
  shows "scale_ok color_scale_floor bright"
proof -
  have ch: "0 \<le> c * bright div 255 \<and> c * bright div 255 \<le> 255"
    if "0 \<le> c" "c \<le> 255" for c :: int
  proof -
    from that assms have "c * bright \<le> 255 * 255" by (intro mult_mono) simp_all
    then have "c * bright div 255 \<le> 255 * 255 div 255" by (rule zdiv_mono1) simp
    moreover from that assms have "0 \<le> c * bright" by simp
    then have "0 \<le> c * bright div 255" by (simp add: pos_imp_zdiv_nonneg_iff)
    ultimately show ?thesis by simp
  qed
  show ?thesis
    unfolding scale_ok_def
  proof (intro allI impI)
    fix c :: color
    assume "wf_color c"
    then show "wf_color (color_scale_floor c bright)"
      by (cases c) (simp add: wf_color_def color_scale_floor_def ch)
  qed
qed

text \<open>
  C5, as the code has it. For well-formed inputs, a physical LED that is the index of no
  covered coordinate holds the gamma of the brightness-scaled background colour when that
  colour is not \<open>(0, 0, 0)\<close>; when it is \<open>(0, 0, 0)\<close> the fill is skipped and the LED
  holds zeros, whatever the gamma table has at 0.
\<close>

theorem C5_amended:
  assumes "wf_led l" "wf_image img" "wf_color (color_scale bgcolor bright)"
    and "bright \<noteq> 255 \<longrightarrow> scale_ok color_scale bright"
    and "0 \<le> p" "p < numLEDs l"
    and "\<forall>xy. covered l img offset xy \<longrightarrow> pixelIndex l xy \<noteq> p"
  shows "\<exists>buffer. getBufferFromImage l color_scale (color_scale bgcolor bright) bright img offset
             = Inr (info_duration img, buffer)
           \<and> led_bytes buffer p =
               (if color_scale bgcolor bright = (0, 0, 0) then (0, 0, 0)
                else gamma_color (driver_gamma l) (color_scale bgcolor bright))"
proof -
  let ?bg = "color_scale bgcolor bright"
  from assms(1-4) obtain s buffer where s: "int (length s) = 3 * numLEDs l"
    and run: "composite l color_scale ?bg bright img offset s = Inr buffer"
    and res: "getBufferFromImage l color_scale ?bg bright img offset = Inr (info_duration img, buffer)"
    and fill: "\<forall>p. 0 \<le> p \<and> p < numLEDs l \<longrightarrow>
       led_bytes s p = (if ?bg = (0, 0, 0) then (0, 0, 0) else gamma_color (driver_gamma l) ?bg)"
    by (rule render_total)
  have "led_bytes buffer p = led_bytes s p"
    by (rule composite_untouched [OF assms(1-4) s run assms(5)]) (use assms(7) in blast)
  with fill assms(5,6) res show ?thesis by simp
qed

text \<open>
  C5 as stated fails: with a black background on the strip whose gamma table maps 0 to 128,
  the uncovered LED holds \<open>(0, 0, 0)\<close>, not the gamma of the background.
\<close>

theorem C5_counterexample:
  "map_sum id (\<lambda>rendered. led_bytes (snd rendered) 1)
     (getBufferFromImage strip2 color_scale_floor (color_scale_floor (0, 0, 0) 255) 255 white (0, 0))
     = Inr (0, 0, 0)
   \<and> gamma_color (driver_gamma strip2) (color_scale_floor (0, 0, 0) 255) = (128, 128, 128)
   \<and> \<not> covered strip2 white (0, 0) (1, 0)"
  by code_simp

theorem C5_amended_witness:
  "\<exists>buffer. getBufferFromImage led2 color_scale_floor (5, 10, 15) 128 clear (0, 0)
               = Inr (Some 100, buffer)
     \<and> led_bytes buffer 2 = (5, 10, 15)"
proof -
  have bg: "color_scale_floor (10, 20, 30) 128 = (5, 10, 15)"
    by (simp add: color_scale_floor_def)
  have wc: "wf_color (color_scale_floor (10, 20, 30) 128)"
    by (simp add: bg wf_color_def)
  have sc: "(128::int) \<noteq> 255 \<longrightarrow> scale_ok color_scale_floor 128"
    by (simp add: color_scale_floor_ok)
  have p: "(0::int) \<le> 2" "2 < numLEDs led2" by (simp_all add: led2_def)
  have out: "\<forall>xy. covered led2 clear (0, 0) xy \<longrightarrow> pixelIndex led2 xy \<noteq> 2"
  proof (intro allI impI)
    fix xy
    assume "covered led2 clear (0, 0) xy"
    then have "xy = (0, 0)"
      by (cases xy) (auto simp: covered_def overlap_w_def overlap_h_def led2_def clear_def)
    then show "pixelIndex led2 xy \<noteq> 2" by (simp add: pixelIndex_def led2_def)
  qed
  have gm: "gamma_color (driver_gamma led2) (5, 10, 15) = (5, 10, 15)"
    by (simp add: gamma_color_def led2_def id_gamma_def)
  have dur: "info_duration clear = Some 100" by (simp add: clear_def)
  from C5_amended [OF wf_examples(2) wf_examples(6) wc sc p out]
  show ?thesis by (simp add: bg gm dur)
qed

text \<open>
  C8, as the code has it. The compositor has no check of the frame's area: for every
  well-formed input, a frame of zero width or height included, it returns the frame's
  duration and a buffer of \<^verbatim>\<open>bufByteCount\<close> bytes, and for a frame of zero area that
  buffer is the background alone.
\<close>

theorem C8_amended:
  assumes "wf_led l" "wf_image img" "wf_color bgcolor"
    and "bright \<noteq> 255 \<longrightarrow> scale_ok color_scale bright"
  shows "\<exists>buffer. getBufferFromImage l color_scale bgcolor bright img offset
             = Inr (info_duration img, buffer)
           \<and> int (length buffer) = bufByteCount l
           \<and> (fst (img_size img) = 0 \<or> snd (img_size img) = 0 \<longrightarrow>
                background l bgcolor = Inr buffer)"
proof -
  from assms obtain s buffer where s: "background l bgcolor = Inr s"
    and run: "composite l color_scale bgcolor bright img offset s = Inr buffer"
    and len: "int (length buffer) = 3 * numLEDs l"
    and res: "getBufferFromImage l color_scale bgcolor bright img offset = Inr (info_duration img, buffer)"
    by (rule render_total)
  from assms(1) len have "int (length buffer) = bufByteCount l" by (simp add: wf_led_def)
  moreover have "background l bgcolor = Inr buffer"
    if "fst (img_size img) = 0 \<or> snd (img_size img) = 0"
  proof -
    have w: "overlap_w l img offset \<le> fst (img_size img)"
      and h: "overlap_h l img offset \<le> snd (img_size img)"
      by (simp_all add: overlap_w_def overlap_h_def Let_def)
    from that have "composite l color_scale bgcolor bright img offset s = Inr s"
    proof
      assume "fst (img_size img) = 0"
      with w have "py_range (fst offset) (overlap_w l img offset + fst offset) = []"
        by (simp add: py_range_def)
      then show ?thesis by (simp add: composite_def)
    next
      assume "snd (img_size img) = 0"
      with h have e: "py_range (snd offset) (overlap_h l img offset + snd offset) = []"
        by (simp add: py_range_def)
      have "for_each (\<lambda>x. for_each (set_pixel l color_scale bgcolor bright img (fst offset) (snd offset) x) []) xs s
          = Inr s" for xs
        by (induction xs) simp_all
      then show ?thesis by (simp add: composite_def e)
    qed
    with run s show ?thesis by simp
  qed
  ultimately show ?thesis using res by blast
qed

text \<open>C8 as stated fails: a frame of size zero is rendered, to the blank buffer.\<close>

theorem C8_counterexample:
  "fst (img_size no_area) = 0
   \<and> getBufferFromImage led1 color_scale_floor (0, 0, 0) 255 no_area (0, 0) = Inr (None, [0, 0, 0])"
  by code_simp

theorem C8_amended_witness:
  "\<exists>buffer. getBufferFromImage led2 color_scale_floor (5, 10, 15) 128 no_area (3, - 1)
               = Inr (None, buffer)
     \<and> int (length buffer) = 12"
proof -
  have wc: "wf_color (5, 10, 15)" by (simp add: wf_color_def)
  have sc: "(128::int) \<noteq> 255 \<longrightarrow> scale_ok color_scale_floor 128"
    by (simp add: color_scale_floor_ok)
  have dur: "info_duration no_area = None" by (simp add: no_area_def)
  have n: "bufByteCount led2 = 12" by (simp add: led2_def)
  from C8_amended [OF wf_examples(2) wf_examples(8) wc sc, of "(3, - 1)"]
  show ?thesis by (auto simp: dur n)
qed

subsection \<open>The frames a constructed animation holds\<close>

lemma init_gif_frames:
  assumes "init fs cs l imagePath offset bgcolor brightness = Inr self"
    and "endswith imagePath ''.gif''"
    and "Image_open fs imagePath = Some (img, rest)"
  shows "self_offset self = PyTuple [fst (gif_offset l img offset), snd (gif_offset l img offset)]"
    and "list_all2 (\<lambda>f r. getBufferFromImage l cs (self_bgcolor self) (self_bright self) f
            (gif_offset l img offset) = Inr r) (img # rest) (self_images self)"
proof -
  from assms(1,2) obtain img' rest' images count where
    op: "Image_open fs imagePath = Some (img', rest')"
    and loop: "for_each (append_frame l cs (cs bgcolor (init_bright l brightness)) (init_bright l brightness)
             (gif_offset l img' offset)) (img' # rest') ([], 0) = Inr (images, count)"
    and self: "self = new_anim l (init_bright l brightness) (cs bgcolor (init_bright l brightness))
             (PyTuple [fst (gif_offset l img' offset), snd (gif_offset l img' offset)]) images count"
    by (rule init_gif_Inr)
  from op assms(3) have same: "img' = img" "rest' = rest" by simp_all
  show "self_offset self = PyTuple [fst (gif_offset l img offset), snd (gif_offset l img offset)]"
    by (simp add: self same new_anim_def)
  from append_frame_renders [OF loop] show
    "list_all2 (\<lambda>f r. getBufferFromImage l cs (self_bgcolor self) (self_bright self) f
            (gif_offset l img offset) = Inr r) (img # rest) (self_images self)"
    by (simp add: self same new_anim_def)
qed

lemma init_folder_frames:
  assumes "init fs cs l imagePath offset bgcolor brightness = Inr self"
    and "\<not> endswith imagePath ''.gif''"
  shows "list_all2 (\<lambda>p r. getBufferFromPath fs l cs (self_bgcolor self) (self_bright self) p
            offset = Inr r) (sort (glob fs (imagePath @ ''/*.bmp''))) (self_images self)"
proof -
  from assms obtain imageList images where
    il: "imageList = sort (glob fs (imagePath @ ''/*.bmp''))"
    and loop: "for_each (append_path fs l cs (cs bgcolor (init_bright l brightness)) (init_bright l brightness)
             offset) imageList [] = Inr images"
    and self: "self = new_anim l (init_bright l brightness) (cs bgcolor (init_bright l brightness))
             (PyTuple [fst offset, snd offset]) images (int (length imageList))"
    by (rule init_folder_Inr)
  from append_path_renders [OF loop] show ?thesis
    by (simp add: self il new_anim_def)
qed

lemma rendered_pixel:
  assumes wf: "wf_led l" "wf_image img" "wf_color bgcolor"
      "bright \<noteq> 255 \<longrightarrow> scale_ok cs bright"
    and run: "getBufferFromImage l cs bgcolor bright img offset = Inr rendered"
    and cov: "covered l img offset (x, y)"
    and last: "\<forall>xy'. covered l img offset xy' \<and> visited_after (x, y) xy' \<longrightarrow>
                 pixelIndex l xy' \<noteq> pixelIndex l (x, y)"
  shows "led_bytes (snd rendered) (pixelIndex l (x, y)) =
           gamma_color (driver_gamma l)
             (if bright \<noteq> 255
              then cs (composited bgcolor (sample img (x - fst offset, y - snd offset))) bright
              else composited bgcolor (sample img (x - fst offset, y - snd offset)))"
proof -
  from render_pixel [OF wf cov last] run have
    "led_bytes (snd rendered) (pixelIndex l (x, y)) = painted l cs bgcolor bright img offset (x, y)"
    by auto
  moreover have "pixel_color cs bgcolor bright s =
      (if bright \<noteq> 255 then cs (composited bgcolor s) bright else composited bgcolor s)" for s
    by (cases s) (simp add: pixel_color_def composited_def Let_def)
  ultimately show ?thesis by (simp add: painted_def)
qed

text \<open>
  C9. A constructed animation keeps as its brightness the layout's master brightness when
  the argument is 255 and the master brightness is not, and the argument otherwise, so on a
  layout whose master brightness is not 255 the brightness kept is never 255. The
  background colour it keeps is the argument scaled by that brightness. The frames it holds
  are, one for one and in order, the source's frames rendered with that brightness and that
  background; and in every frame so rendered from well-formed inputs, the bytes of a
  covered coordinate (that no coordinate visited later shares) are the gamma of the
  sample's colour scaled by that brightness, left unscaled only when that brightness is 255.
\<close>

theorem C9:
  assumes "init fs color_scale l imagePath offset bgcolor brightness = Inr self"
  shows "self_bright self =
           (if brightness = 255 \<and> masterBrightness l \<noteq> 255 then masterBrightness l else brightness)
       \<and> (masterBrightness l \<noteq> 255 \<longrightarrow> self_bright self \<noteq> 255)
       \<and> self_bgcolor self = color_scale bgcolor (self_bright self)
       \<and> (endswith imagePath ''.gif'' \<longrightarrow>
            (\<forall>img rest. Image_open fs imagePath = Some (img, rest) \<longrightarrow>
               list_all2 (\<lambda>f r. getBufferFromImage l color_scale (self_bgcolor self)
                             (self_bright self) f (gif_offset l img offset) = Inr r)
                 (img # rest) (self_images self)))
       \<and> (\<not> endswith imagePath ''.gif'' \<longrightarrow>
            list_all2 (\<lambda>p r. \<exists>img rest. Image_open fs p = Some (img, rest) \<and>
                          getBufferFromImage l color_scale (self_bgcolor self)
                            (self_bright self) img offset = Inr r)
              (sort (glob fs (imagePath @ ''/*.bmp''))) (self_images self))
       \<and> (\<forall>img off rendered x y.
            getBufferFromImage l color_scale (self_bgcolor self) (self_bright self) img off
              = Inr rendered
            \<and> wf_led l \<and> wf_image img \<and> wf_color (self_bgcolor self)
            \<and> (self_bright self \<noteq> 255 \<longrightarrow> scale_ok color_scale (self_bright self))
            \<and> covered l img off (x, y)
            \<and> (\<forall>xy'. covered l img off xy' \<and> visited_after (x, y) xy' \<longrightarrow>
                   pixelIndex l xy' \<noteq> pixelIndex l (x, y))
            \<longrightarrow> led_bytes (snd rendered) (pixelIndex l (x, y)) =
                  gamma_color (driver_gamma l)
                    (if self_bright self \<noteq> 255
                     then color_scale
                            (composited (self_bgcolor self) (sample img (x - fst off, y - snd off)))
                            (self_bright self)
                     else composited (self_bgcolor self) (sample img (x - fst off, y - snd off))))"
proof -
  note f = init_fields [OF assms]
  have b: "self_bright self =
      (if brightness = 255 \<and> masterBrightness l \<noteq> 255 then masterBrightness l else brightness)"
    by (simp add: f(1) init_bright_def)
  then have cap: "masterBrightness l \<noteq> 255 \<longrightarrow> self_bright self \<noteq> 255" by simp
  have bg: "self_bgcolor self = color_scale bgcolor (self_bright self)" by (simp add: f)
  have gif: "list_all2 (\<lambda>f r. getBufferFromImage l color_scale (self_bgcolor self)
                 (self_bright self) f (gif_offset l img offset) = Inr r) (img # rest) (self_images self)"
    if "endswith imagePath ''.gif''" "Image_open fs imagePath = Some (img, rest)" for img rest
    by (rule init_gif_frames(2) [OF assms that])
  have folder: "list_all2 (\<lambda>p r. \<exists>img rest. Image_open fs p = Some (img, rest) \<and>
                  getBufferFromImage l color_scale (self_bgcolor self) (self_bright self) img offset = Inr r)
        (sort (glob fs (imagePath @ ''/*.bmp''))) (self_images self)"
    if "\<not> endswith imagePath ''.gif''"
  proof (rule list_all2_mono [OF init_folder_frames [OF assms that]])
    fix p r
    assume "getBufferFromPath fs l color_scale (self_bgcolor self) (self_bright self) p offset = Inr r"
    then show "\<exists>img rest. Image_open fs p = Some (img, rest) \<and>
        getBufferFromImage l color_scale (self_bgcolor self) (self_bright self) img offset = Inr r"
      by (auto simp: getBufferFromPath_def split: option.splits)
  qed
  have px: "led_bytes (snd rendered) (pixelIndex l (x, y)) =
        gamma_color (driver_gamma l)
          (if self_bright self \<noteq> 255
           then color_scale (composited (self_bgcolor self) (sample img (x - fst off, y - snd off)))
                  (self_bright self)
           else composited (self_bgcolor self) (sample img (x - fst off, y - snd off)))"
    if "getBufferFromImage l color_scale (self_bgcolor self) (self_bright self) img off = Inr rendered"
      "wf_led l" "wf_image img" "wf_color (self_bgcolor self)"
      "self_bright self \<noteq> 255 \<longrightarrow> scale_ok color_scale (self_bright self)"
      "covered l img off (x, y)"
      "\<forall>xy'. covered l img off xy' \<and> visited_after (x, y) xy' \<longrightarrow>
             pixelIndex l xy' \<noteq> pixelIndex l (x, y)"
    for img off rendered x y
    by (rule rendered_pixel [OF that(2-5) that(1) that(6,7)])
  from b cap bg gif folder px show ?thesis by blast
qed


lemma init_dim_ok:
  "(case init fs1 color_scale_floor dim_led1 ''a.gif'' (0, 0) (255, 255, 255) 255 of
      Inl e \<Rightarrow> False | Inr s \<Rightarrow> True)"
  by code_simp

lemma wf_dim_led1: "wf_led dim_led1"
  by code_simp

theorem C9_witness:
  "map_sum id (\<lambda>self. (self_bright self, self_bgcolor self,
                    map (\<lambda>r. led_bytes (snd r) 0) (tl (self_images self))))
     (init fs1 color_scale_floor dim_led1 ''a.gif'' (0, 0) (255, 255, 255) 255)
   = Inr (128, (128, 128, 128), [(64, 64, 64)])"
proof -
  from init_dim_ok obtain s0 where
    s0: "init fs1 color_scale_floor dim_led1 ''a.gif'' (0, 0) (255, 255, 255) 255 = Inr s0"
    by (auto split: sum.splits)
  note th = C9 [OF s0]
  have mb: "masterBrightness dim_led1 = 128" by (simp add: dim_led1_def)
  from th [THEN conjunct1] have b: "self_bright s0 = 128" by (simp add: mb)
  from th [THEN conjunct2, THEN conjunct2, THEN conjunct1]
  have bg: "self_bgcolor s0 = (128, 128, 128)" by (simp add: b color_scale_floor_def)
  have gif: "endswith ''a.gif'' ''.gif''" by (simp add: endswith_def)
  have op: "Image_open fs1 ''a.gif'' = Some (white, [clear])" by (simp add: fs1_def)
  have off: "gif_offset dim_led1 white (0, 0) = (0, 0)"
    by (simp add: gif_offset_def dim_led1_def led1_def white_def)
  from th [THEN conjunct2, THEN conjunct2, THEN conjunct2, THEN conjunct1] gif op
  have "list_all2 (\<lambda>f r. getBufferFromImage dim_led1 color_scale_floor (128, 128, 128) 128 f (0, 0)
          = Inr r) [white, clear] (self_images s0)"
    by (simp add: b bg off)
  then obtain r1 r2 where imgs: "self_images s0 = [r1, r2]"
    and r2: "getBufferFromImage dim_led1 color_scale_floor (128, 128, 128) 128 clear (0, 0) = Inr r2"
    by (auto simp: list_all2_Cons1)
  have wc: "wf_color (128, 128, 128)" by (simp add: wf_color_def)
  have sc: "(128::int) \<noteq> 255 \<longrightarrow> scale_ok color_scale_floor 128"
    by (simp add: color_scale_floor_ok)
  have only: "xy = (0, 0)" if "covered dim_led1 clear (0, 0) xy" for xy
    using that
    by (cases xy) (auto simp: covered_def overlap_w_def overlap_h_def dim_led1_def led1_def clear_def)
  have cov: "covered dim_led1 clear (0, 0) (0, 0)"
    by (simp add: covered_def overlap_w_def overlap_h_def dim_led1_def led1_def clear_def)
  have last: "\<forall>xy'. covered dim_led1 clear (0, 0) xy' \<and> visited_after (0, 0) xy' \<longrightarrow>
      pixelIndex dim_led1 xy' \<noteq> pixelIndex dim_led1 (0, 0)"
    using only by (auto simp: visited_after_def)
  have pi: "pixelIndex dim_led1 (0, 0) = 0" by (simp add: pixelIndex_def dim_led1_def led1_def)
  have smp: "sample clear (0, 0) = (9, 9, 9, 0)" by (simp add: sample_def clear_def)
  have gm: "gamma_color (driver_gamma dim_led1) (64, 64, 64) = (64, 64, 64)"
    by (simp add: gamma_color_def dim_led1_def led1_def id_gamma_def)
  from th [THEN conjunct2, THEN conjunct2, THEN conjunct2, THEN conjunct2, THEN conjunct2,
      THEN spec, THEN spec, THEN spec, THEN spec, THEN spec,
      of clear "(0, 0)" r2 0 0]
    r2 wf_dim_led1 wf_examples(6) wc sc cov last
  have "led_bytes (snd r2) 0 = (64, 64, 64)"
    by (simp add: b bg pi smp gm composited_def color_scale_floor_def)
  with b bg imgs show ?thesis
    unfolding s0 by simp
qed


subsection \<open>The constructor at any offset sequence\<close>

lemma getBufferFromImage_seq_two:
  "seq_items offset = [a, b] \<Longrightarrow>
     getBufferFromImage_seq l cs bg br img offset = getBufferFromImage l cs bg br img (a, b)"
  by (simp add: getBufferFromImage_seq_def py_get_def py_index_def)

lemma getBufferFromImage_seq_Inr:
  assumes "getBufferFromImage_seq l cs bg br img offset = Inr r"
  obtains ox oy where "py_get (seq_items offset) 0 = Inr ox" "py_get (seq_items offset) 1 = Inr oy"
    "getBufferFromImage l cs bg br img (ox, oy) = Inr r"
  using assms unfolding getBufferFromImage_seq_def andThen_Inr_iff by blast

lemma append_frame_seq_pair:
  "append_frame_seq l cs bg br (PyTuple [a, b]) = append_frame l cs bg br (a, b)"
  by (intro ext)
     (simp add: append_frame_seq_def append_frame_def getBufferFromImage_seq_two seq_items_def)

lemma append_path_seq_pair:
  "append_path_seq fs l cs bg br (PyTuple [a, b]) = append_path fs l cs bg br (a, b)"
  by (intro ext)
     (simp add: append_path_seq_def append_path_def getBufferFromPath_seq_def getBufferFromPath_def
        getBufferFromImage_seq_two seq_items_def split: option.splits)

lemma gif_offset_seq_pair:
  "gif_offset_seq l img (PyTuple [a, b]) =
     PyTuple [fst (gif_offset l img (a, b)), snd (gif_offset l img (a, b))]"
  by (simp add: gif_offset_seq_def gif_offset_def Let_def)

lemma init_seq_pair:
  "init_seq fs cs l imagePath (PyTuple [a, b]) bgcolor brightness =
     init fs cs l imagePath (a, b) bgcolor brightness"
proof (cases "endswith imagePath ''.gif''")
  case True
  show ?thesis
  proof (cases "Image_open fs imagePath")
    case None
    with True show ?thesis by (simp add: init_seq_def init_def)
  next
    case (Some opened)
    obtain img rest where "opened = (img, rest)" by (cases opened)
    with True Some show ?thesis
      by (simp add: init_seq_def init_def Let_def gif_offset_seq_pair append_frame_seq_pair)
  qed
next
  case False
  then show ?thesis
    by (simp add: init_seq_def init_def Let_def append_path_seq_pair)
qed

lemma append_frame_seq_renders:
  "for_each (append_frame_seq l cs bg br off) frames (images, count) = Inr (images', count') \<Longrightarrow>
     \<exists>rs. images' = images @ rs
       \<and> list_all2 (\<lambda>f r. getBufferFromImage_seq l cs bg br f off = Inr r) frames rs"
proof (induction frames arbitrary: images count)
  case Nil
  then show ?case by simp
next
  case (Cons f frames)
  from Cons.prems obtain acc where
    acc: "append_frame_seq l cs bg br off f (images, count) = Inr acc"
    and rest: "for_each (append_frame_seq l cs bg br off) frames acc = Inr (images', count')"
    by (auto simp: andThen_Inr_iff)
  from acc obtain r where
    r: "getBufferFromImage_seq l cs bg br f off = Inr r" "acc = (images @ [r], count + 1)"
    by (auto simp: append_frame_seq_def andThen_Inr_iff)
  from rest r(2) Cons.IH [of "images @ [r]" "count + 1"] obtain rs where
    "images' = (images @ [r]) @ rs"
    "list_all2 (\<lambda>f r. getBufferFromImage_seq l cs bg br f off = Inr r) frames rs"
    by auto
  with r(1) have "images' = images @ (r # rs)
      \<and> list_all2 (\<lambda>f r. getBufferFromImage_seq l cs bg br f off = Inr r) (f # frames) (r # rs)"
    by simp
  then show ?case by blast
qed

lemma init_seq_gif_frames:
  assumes "init_seq fs cs l imagePath offset bgcolor brightness = Inr self"
    and "endswith imagePath ''.gif''"
    and "Image_open fs imagePath = Some (img, rest)"
  shows "self_offset self = gif_offset_seq l img offset"
    and "list_all2 (\<lambda>f r. getBufferFromImage_seq l cs (self_bgcolor self) (self_bright self) f
            (self_offset self) = Inr r) (img # rest) (self_images self)"
proof -
  define loop where "loop = for_each (append_frame_seq l cs (cs bgcolor (init_bright l brightness))
       (init_bright l brightness) (gif_offset_seq l img offset)) (img # rest) ([], 0)"
  from assms have "andThen loop
       (\<lambda>(images, count). Inr (new_anim l (init_bright l brightness)
          (cs bgcolor (init_bright l brightness)) (gif_offset_seq l img offset) images count)) = Inr self"
    unfolding init_seq_def Let_def loop_def by simp
  then obtain images count where run: "loop = Inr (images, count)"
    and self: "self = new_anim l (init_bright l brightness) (cs bgcolor (init_bright l brightness))
       (gif_offset_seq l img offset) images count"
    by (cases loop) (auto simp: andThen_def)
  show "self_offset self = gif_offset_seq l img offset"
    by (simp add: self new_anim_def)
  from append_frame_seq_renders [OF run [unfolded loop_def]] show
    "list_all2 (\<lambda>f r. getBufferFromImage_seq l cs (self_bgcolor self) (self_bright self) f
            (self_offset self) = Inr r) (img # rest) (self_images self)"
    by (simp add: self new_anim_def)
qed

text \<open>
  C10, as the code has it, for an animated file. Centring is triggered by the offset being
  equal to the tuple \<open>(0, 0)\<close>: that tuple is replaced, on each axis where the first
  frame is smaller than the layout, by half the difference rounded down, and every other
  offset sequence is kept as passed; every frame is rendered at items 0 and 1 of the offset
  so chosen. In particular the list \<open>[0, 0]\<close> is kept, and every frame is then placed at
  \<open>(0, 0)\<close>, the top left, however small it is.
\<close>

theorem C10_amended:
  assumes "init_seq fs color_scale l imagePath offset bgcolor brightness = Inr self"
    and "endswith imagePath ''.gif''"
    and "Image_open fs imagePath = Some (img, rest)"
  shows "(offset = PyTuple [0, 0] \<longrightarrow>
            self_offset self =
              PyTuple [if fst (img_size img) < width l then (width l - fst (img_size img)) div 2 else 0,
                       if snd (img_size img) < height l then (height l - snd (img_size img)) div 2 else 0])
       \<and> (offset \<noteq> PyTuple [0, 0] \<longrightarrow> self_offset self = offset)
       \<and> (\<exists>ox oy. py_get (seq_items (self_offset self)) 0 = Inr ox
             \<and> py_get (seq_items (self_offset self)) 1 = Inr oy
             \<and> list_all2 (\<lambda>f r. getBufferFromImage l color_scale (self_bgcolor self)
                            (self_bright self) f (ox, oy) = Inr r)
                  (img # rest) (self_images self))
       \<and> (offset = PyList [0, 0] \<longrightarrow>
            list_all2 (\<lambda>f r. getBufferFromImage l color_scale (self_bgcolor self)
                          (self_bright self) f (0, 0) = Inr r)
              (img # rest) (self_images self))"
proof -
  note f = init_seq_gif_frames [OF assms]
  from f(2) obtain r0 rs where imgs: "self_images self = r0 # rs"
    and first: "getBufferFromImage_seq l color_scale (self_bgcolor self) (self_bright self) img
        (self_offset self) = Inr r0"
    by (auto simp: list_all2_Cons1)
  from first obtain ox oy where ox: "py_get (seq_items (self_offset self)) 0 = Inr ox"
    and oy: "py_get (seq_items (self_offset self)) 1 = Inr oy"
    by (rule getBufferFromImage_seq_Inr)
  have at: "list_all2 (\<lambda>f r. getBufferFromImage l color_scale (self_bgcolor self)
                (self_bright self) f (ox, oy) = Inr r) (img # rest) (self_images self)"
  proof (rule list_all2_mono [OF f(2)])
    fix g r
    assume "getBufferFromImage_seq l color_scale (self_bgcolor self) (self_bright self) g
        (self_offset self) = Inr r"
    then show "getBufferFromImage l color_scale (self_bgcolor self) (self_bright self) g (ox, oy) = Inr r"
      using ox oy by (simp add: getBufferFromImage_seq_def)
  qed
  have kept: "self_offset self = offset" if "offset \<noteq> PyTuple [0, 0]"
    using that by (simp add: f(1) gif_offset_seq_def)
  have lst: "list_all2 (\<lambda>f r. getBufferFromImage l color_scale (self_bgcolor self)
                (self_bright self) f (0, 0) = Inr r) (img # rest) (self_images self)"
    if "offset = PyList [0, 0]"
  proof -
    from that kept have "self_offset self = PyList [0, 0]" by simp
    with ox oy have "ox = 0" "oy = 0"
      by (simp_all add: seq_items_def py_get_def py_index_def)
    with at show ?thesis by simp
  qed
  have centred: "self_offset self =
      PyTuple [if fst (img_size img) < width l then (width l - fst (img_size img)) div 2 else 0,
               if snd (img_size img) < height l then (height l - snd (img_size img)) div 2 else 0]"
    if "offset = PyTuple [0, 0]"
    using that by (simp add: f(1) gif_offset_seq_def Let_def)
  from centred kept ox oy at lst show ?thesis by blast
qed

text \<open>
  C10 as stated fails, twice over. The list \<open>[0, 0]\<close> is not equal to the tuple
  \<open>(0, 0)\<close>: on the strip of four, a one-pixel frame is not centred but rendered into LED
  0, the top left. And the tuple \<open>(0, 0)\<close> itself places a frame that is one pixel smaller
  than the two by two layout at \<open>(0, 0)\<close>, since half of 1 rounds down to 0.
\<close>

theorem C10_counterexample:
  "fst (img_size white) + 2 \<le> width led4
   \<and> Image_open fs1 ''a.gif'' = Some (white, [clear])
   \<and> map_sum id (\<lambda>self. (self_offset self, map snd (self_images self)))
       (init_seq fs1 color_scale_floor led4 ''a.gif'' (PyList [0, 0]) (0, 0, 0) 255)
       = Inr (PyList [0, 0],
              [[254, 254, 254, 0, 0, 0, 0, 0, 0, 0, 0, 0], [0, 0, 0, 0, 0, 0, 0, 0, 0, 0, 0, 0]])
   \<and> fst (img_size white) < width led2 \<and> snd (img_size white) < height led2
   \<and> map_sum id self_offset
       (init_seq fs1 color_scale_floor led2 ''a.gif'' (PyTuple [0, 0]) (0, 0, 0) 255)
       = Inr (PyTuple [0, 0])"
  by code_simp

lemma init_seq_led4_ok:
  "(case init_seq fs1 color_scale_floor led4 ''a.gif'' (PyTuple [0, 0]) (0, 0, 0) 255 of
      Inl e \<Rightarrow> False | Inr s \<Rightarrow> True)"
  by code_simp

lemma init_seq_list_ok:
  "(case init_seq fs1 color_scale_floor led4 ''a.gif'' (PyList [0, 0]) (0, 0, 0) 255 of
      Inl e \<Rightarrow> False | Inr s \<Rightarrow> True)"
  by code_simp

lemma init_seq_list_fields:
  "map_sum id (\<lambda>self. (self_bright self, self_bgcolor self))
     (init_seq fs1 color_scale_floor led4 ''a.gif'' (PyList [0, 0]) (0, 0, 0) 255)
     = Inr (255, (0, 0, 0))"
  by code_simp

lemma led4_top_left:
  "getBufferFromImage led4 color_scale_floor (0, 0, 0) 255 white (0, 0)
     = Inr (Some 100, [254, 254, 254, 0, 0, 0, 0, 0, 0, 0, 0, 0])"
  "getBufferFromImage led4 color_scale_floor (0, 0, 0) 255 clear (0, 0)
     = Inr (Some 100, [0, 0, 0, 0, 0, 0, 0, 0, 0, 0, 0, 0])"
  by code_simp+

theorem C10_amended_witness:
  "map_sum id self_offset
     (init_seq fs1 color_scale_floor led4 ''a.gif'' (PyTuple [0, 0]) (0, 0, 0) 255)
     = Inr (PyTuple [1, 0])
   \<and> map_sum id (\<lambda>self. (self_offset self, map snd (self_images self)))
       (init_seq fs1 color_scale_floor led4 ''a.gif'' (PyList [0, 0]) (0, 0, 0) 255)
     = Inr (PyList [0, 0],
            [[254, 254, 254, 0, 0, 0, 0, 0, 0, 0, 0, 0], [0, 0, 0, 0, 0, 0, 0, 0, 0, 0, 0, 0]])"
proof -
  from init_seq_led4_ok obtain s0 where
    s0: "init_seq fs1 color_scale_floor led4 ''a.gif'' (PyTuple [0, 0]) (0, 0, 0) 255 = Inr s0"
    by (auto split: sum.splits)
  from init_seq_list_ok obtain s1 where
    s1: "init_seq fs1 color_scale_floor led4 ''a.gif'' (PyList [0, 0]) (0, 0, 0) 255 = Inr s1"
    by (auto split: sum.splits)
  have gif: "endswith ''a.gif'' ''.gif''" by (simp add: endswith_def)
  have op: "Image_open fs1 ''a.gif'' = Some (white, [clear])" by (simp add: fs1_def)
  from C10_amended [OF s0 gif op, THEN conjunct1]
  have centred: "self_offset s0 = PyTuple [1, 0]" by (simp add: white_def led4_def)
  from init_seq_list_fields have fields: "self_bright s1 = 255" "self_bgcolor s1 = (0, 0, 0)"
    by (simp_all add: s1)
  note th = C10_amended [OF s1 gif op]
  from th [THEN conjunct2, THEN conjunct1] have kept: "self_offset s1 = PyList [0, 0]" by simp
  from th [THEN conjunct2, THEN conjunct2, THEN conjunct2]
  have "list_all2 (\<lambda>f r. getBufferFromImage led4 color_scale_floor (0, 0, 0) 255 f (0, 0) = Inr r)
          [white, clear] (self_images s1)"
    by (simp add: fields)
  then have "self_images s1 = [(Some 100, [254, 254, 254, 0, 0, 0, 0, 0, 0, 0, 0, 0]),
                               (Some 100, [0, 0, 0, 0, 0, 0, 0, 0, 0, 0, 0, 0])]"
    by (auto simp: list_all2_Cons1 led4_top_left)
  with centred kept show ?thesis
    unfolding s0 s1 by simp
qed

end
